theory Spec2Isabelle
  imports Main "HOL-Library.Multiset" "HOL-Library.Monad_Syntax"
begin

section \<open>Cards and deck (game.js, DECK)\<close>

text \<open>
  The engine of the repository is \<^verbatim>\<open>game.js\<close> (deck, hand evaluator, \<^verbatim>\<open>PokerGame\<close>).
  JavaScript numbers are modelled as \<^typ>\<open>int\<close>: every number the engine computes from
  integer chips, blinds and amounts is an integer far below \<open>2^53\<close>. Two JavaScript
  values have no integer counterpart and are written out: \<^verbatim>\<open>undefined\<close> (an array read
  out of range, \<^verbatim>\<open>pop()\<close> on an empty array) is \<open>None\<close> of an option type, and
  \<^verbatim>\<open>NaN\<close> is a constructor of the type of scores. A \<^verbatim>\<open>TypeError\<close> thrown by a
  property read on \<^verbatim>\<open>undefined\<close> is the result \<open>None\<close> of the function that throws.
\<close>

datatype rank = R2 | R3 | R4 | R5 | R6 | R7 | R8 | R9 | R10 | RJ | RQ | RK | RA

datatype suit = Spades | Hearts | Diamonds | Clubs

text \<open>A card is the object \<^verbatim>\<open>{ r, s }\<close>; the selectors are the two properties.\<close>

datatype card = Card (card_r: rank) (card_s: suit)

definition RANKS :: "rank list" where
  "RANKS = [R2, R3, R4, R5, R6, R7, R8, R9, R10, RJ, RQ, RK, RA]"

definition SUITS :: "suit list" where
  "SUITS = [Spades, Hearts, Diamonds, Clubs]"

text \<open>\<^verbatim>\<open>RANKS.forEach((r, i) => RANK_VAL[r] = i + 2)\<close>\<close>

fun RANK_VAL :: "rank \<Rightarrow> int" where
  "RANK_VAL R2 = 2"
| "RANK_VAL R3 = 3"
| "RANK_VAL R4 = 4"
| "RANK_VAL R5 = 5"
| "RANK_VAL R6 = 6"
| "RANK_VAL R7 = 7"
| "RANK_VAL R8 = 8"
| "RANK_VAL R9 = 9"
| "RANK_VAL R10 = 10"
| "RANK_VAL RJ = 11"
| "RANK_VAL RQ = 12"
| "RANK_VAL RK = 13"
| "RANK_VAL RA = 14"

text \<open>
  \<^verbatim>\<open>shuffle\<close> is Fisher-Yates driven by \<^verbatim>\<open>Math.random()\<close>. The random source is the
  parameter \<open>rand\<close>: \<open>rand i\<close> is the number drawn at loop index \<open>i\<close>. The source computes
  \<^verbatim>\<open>Math.floor(Math.random() * (i + 1))\<close>, some index in \<open>0..i\<close>; the reduction
  \<open>mod (i + 1)\<close> gives exactly that range for an arbitrary \<open>rand\<close>.
\<close>

fun shuffle_loop :: "(nat \<Rightarrow> nat) \<Rightarrow> nat \<Rightarrow> 'a list \<Rightarrow> 'a list" where
  "shuffle_loop rand 0 a = a"
| "shuffle_loop rand (Suc k) a =
     (let i = Suc k; j = rand i mod (i + 1)
      in shuffle_loop rand k (a[i := a ! j, j := a ! i]))"

definition shuffle :: "(nat \<Rightarrow> nat) \<Rightarrow> 'a list \<Rightarrow> 'a list" where
  "shuffle rand arr = shuffle_loop rand (length arr - 1) arr"

definition fullDeck :: "card list" where
  "fullDeck = concat (map (\<lambda>s. map (\<lambda>r. Card r s) RANKS) SUITS)"

definition newDeck :: "(nat \<Rightarrow> nat) \<Rightarrow> card list" where
  "newDeck rand = shuffle rand fullDeck"

text \<open>\<^verbatim>\<open>deck.pop()\<close>: the last element and the shorter array, \<^verbatim>\<open>undefined\<close> when empty.\<close>

definition pop :: "'a list \<Rightarrow> 'a option \<times> 'a list" where
  "pop d = (if d = [] then (None, []) else (Some (last d), butlast d))"

text \<open>\<^verbatim>\<open>xs[i]\<close>: an array read, \<^verbatim>\<open>undefined\<close> out of range.\<close>

definition at :: "'a list \<Rightarrow> int \<Rightarrow> 'a option" where
  "at xs i = (if 0 \<le> i \<and> i < int (length xs) then Some (xs ! nat i) else None)"

section \<open>Hand evaluator (game.js, HAND EVALUATOR)\<close>

text \<open>A score is a JavaScript number: an integer, or \<^verbatim>\<open>NaN\<close>.\<close>

datatype jsnum = NaN | Num int

text \<open>\<^verbatim>\<open>a > b\<close> and \<^verbatim>\<open>a === b\<close> on numbers: both are false when a side is \<^verbatim>\<open>NaN\<close>.\<close>

fun js_gt :: "jsnum \<Rightarrow> jsnum \<Rightarrow> bool" where
  "js_gt (Num a) (Num b) = (a > b)"
| "js_gt _ _ = False"

fun js_eq :: "jsnum \<Rightarrow> jsnum \<Rightarrow> bool" where
  "js_eq (Num a) (Num b) = (a = b)"
| "js_eq _ _ = False"

text \<open>
  The result \<^verbatim>\<open>{ rank, name, score }\<close> of \<^verbatim>\<open>evalFive\<close>. The fields \<^verbatim>\<open>rank\<close> and
  \<^verbatim>\<open>name\<close> are called \<open>hrank\<close> and \<open>hname\<close> here.
\<close>

record hand_result =
  hrank :: int
  hname :: string
  score :: jsnum

text \<open>
  The local variables of \<^verbatim>\<open>evalFive\<close>, one definition each, on an array of defined
  cards. \<open>vals\<close> is sorted descending, \<open>sorted_vals\<close> ascending.
\<close>

definition vals :: "card list \<Rightarrow> int list" where
  "vals cards = rev (sort (map (\<lambda>c. RANK_VAL (card_r c)) cards))"

definition suits :: "card list \<Rightarrow> suit list" where
  "suits cards = map card_s cards"

text \<open>\<^verbatim>\<open>suits.every(s => s === suits[0])\<close>, true of the empty array.\<close>

definition flush :: "card list \<Rightarrow> bool" where
  "flush cards = (case suits cards of [] \<Rightarrow> True | s0 # _ \<Rightarrow> list_all (\<lambda>s. s = s0) (suits cards))"

definition sorted_vals :: "card list \<Rightarrow> int list" where
  "sorted_vals cards = sort (vals cards)"

text \<open>\<^verbatim>\<open>sorted.join(',') === '2,3,4,5,14'\<close>: joining integers with commas is injective.\<close>

definition isWheel :: "card list \<Rightarrow> bool" where
  "isWheel cards = (sorted_vals cards = [2, 3, 4, 5, 14])"

text \<open>\<^verbatim>\<open>sorted.every((v, i) => i === 0 || v === sorted[i - 1] + 1)\<close>\<close>

fun consecutive :: "int list \<Rightarrow> bool" where
  "consecutive (a # b # xs) = (b = a + 1 \<and> consecutive (b # xs))"
| "consecutive _ = True"

definition straight :: "card list \<Rightarrow> bool" where
  "straight cards = (isWheel cards \<or> consecutive (sorted_vals cards))"

text \<open>
  \<^verbatim>\<open>for (const v of vals) counts[v] = (counts[v] || 0) + 1\<close>: the object \<^verbatim>\<open>counts\<close> as
  an association list; \<^verbatim>\<open>Object.values(counts).sort((a, b) => b - a)\<close> sorts the
  multiplicities descending, so the order of the keys does not matter.
\<close>

fun bump :: "int \<Rightarrow> (int \<times> int) list \<Rightarrow> (int \<times> int) list" where
  "bump v [] = [(v, 1)]"
| "bump v ((k, c) # m) = (if k = v then (k, c + 1) # m else (k, c) # bump v m)"

definition counts :: "card list \<Rightarrow> (int \<times> int) list" where
  "counts cards = fold bump (vals cards) []"

definition freq :: "card list \<Rightarrow> int list" where
  "freq cards = rev (sort (map snd (counts cards)))"

definition pairs :: "card list \<Rightarrow> nat" where
  "pairs cards = length (filter (\<lambda>f. f = 2) (freq cards))"

definition category :: "card list \<Rightarrow> int \<times> string" where
  "category cards =
     (if flush cards \<and> straight cards then
        (8, if at (vals cards) 0 = Some 14 \<and> \<not> isWheel cards then ''Royal Flush''
            else ''Straight Flush'')
      else if at (freq cards) 0 = Some 4 then (7, ''Four of a Kind'')
      else if at (freq cards) 0 = Some 3 \<and> at (freq cards) 1 = Some 2 then (6, ''Full House'')
      else if flush cards then (5, ''Flush'')
      else if straight cards then (4, ''Straight'')
      else if at (freq cards) 0 = Some 3 then (3, ''Three of a Kind'')
      else if pairs cards = 2 then (2, ''Two Pair'')
      else if pairs cards = 1 then (1, ''One Pair'')
      else (0, ''High Card''))"

definition tieVals :: "card list \<Rightarrow> int list" where
  "tieVals cards = (if isWheel cards then [5, 4, 3, 2, 1] else vals cards)"

text \<open>\<^verbatim>\<open>tieVals[k] || 0\<close>: zero for a missing (or zero) entry.\<close>

definition or0 :: "int option \<Rightarrow> int" where
  "or0 v = (case v of None \<Rightarrow> 0 | Some x \<Rightarrow> x)"

text \<open>
  \<^verbatim>\<open>rank * 1e10 + tieVals[0] * 1e7 + (tieVals[1] || 0) * 1e5 + (tieVals[2] || 0) * 1e3 +
  (tieVals[3] || 0) * 10 + (tieVals[4] || 0)\<close>; \<^verbatim>\<open>tieVals[0]\<close> has no default, so the
  score of an empty array is \<^verbatim>\<open>NaN\<close>.
\<close>

definition scoreOf :: "card list \<Rightarrow> jsnum" where
  "scoreOf cards =
     (case at (tieVals cards) 0 of
        None \<Rightarrow> NaN
      | Some t0 \<Rightarrow>
          Num (fst (category cards) * 10000000000 + t0 * 10000000
               + or0 (at (tieVals cards) 1) * 100000 + or0 (at (tieVals cards) 2) * 1000
               + or0 (at (tieVals cards) 3) * 10 + or0 (at (tieVals cards) 4)))"

text \<open>
  \<^verbatim>\<open>evalFive(cards)\<close>. Its first statement reads \<^verbatim>\<open>c.r\<close> of every element, so an
  \<^verbatim>\<open>undefined\<close> among the cards throws (\<open>None\<close>).
\<close>

definition evalFive :: "card option list \<Rightarrow> hand_result option" where
  "evalFive cards =
     (case those cards of
        None \<Rightarrow> None
      | Some cs \<Rightarrow>
          Some \<lparr> hrank = fst (category cs), hname = snd (category cs), score = scoreOf cs \<rparr>)"

text \<open>\<^verbatim>\<open>cards.filter((_, idx) => idx !== i && idx !== j)\<close>\<close>

definition without :: "nat \<Rightarrow> nat \<Rightarrow> 'a list \<Rightarrow> 'a list" where
  "without i j cards = map snd (filter (\<lambda>(idx, c). idx \<noteq> i \<and> idx \<noteq> j) (enumerate 0 cards))"

text \<open>The index pairs of \<^verbatim>\<open>for (i = 0; i < n; i++) for (j = i + 1; j < n; j++)\<close>, in order.\<close>

definition index_pairs :: "nat \<Rightarrow> (nat \<times> nat) list" where
  "index_pairs n = concat (map (\<lambda>i. map (\<lambda>j. (i, j)) [i + 1 ..< n]) [0 ..< n])"

text \<open>
  The loop body of \<^verbatim>\<open>bestOf7\<close> over the remaining index pairs. \<open>best\<close> is \<open>None\<close> for
  \<^verbatim>\<open>null\<close>; the outer option is the exception of \<^verbatim>\<open>evalFive\<close>.
\<close>

fun bestOf7_loop ::
  "card option list \<Rightarrow> (nat \<times> nat) list \<Rightarrow> hand_result option \<Rightarrow> hand_result option option"
where
  "bestOf7_loop cards [] best = Some best"
| "bestOf7_loop cards ((i, j) # rest) best =
     (let five = without i j cards in
      if length five \<noteq> 5 then bestOf7_loop cards rest best
      else (case evalFive five of
              None \<Rightarrow> None
            | Some h \<Rightarrow>
                bestOf7_loop cards rest
                  (case best of
                     None \<Rightarrow> Some h
                   | Some b \<Rightarrow> if js_gt (score h) (score b) then Some h else Some b)))"

definition bestOf7 :: "card option list \<Rightarrow> hand_result option" where
  "bestOf7 cards =
     (case bestOf7_loop cards (index_pairs (length cards)) None of
        None \<Rightarrow> None
      | Some None \<Rightarrow> evalFive (take 5 cards)
      | Some (Some b) \<Rightarrow> Some b)"

text \<open>
  The five-card subsets of an array, independently of the loop: its subsequences of
  length five.
\<close>

definition five_subsets :: "'a list \<Rightarrow> 'a list list" where
  "five_subsets cards = filter (\<lambda>s. length s = 5) (subseqs cards)"

text \<open>
  The order the specification asks of the tie-break ranks of two hands of one category:
  lexicographic, the first differing position decides, the greater rank wins.
\<close>

fun lex_gt :: "int list \<Rightarrow> int list \<Rightarrow> bool" where
  "lex_gt (x # xs) (y # ys) = (x > y \<or> (x = y \<and> lex_gt xs ys))"
| "lex_gt _ _ = False"

section \<open>Table state (game.js, GAME ENGINE)\<close>

datatype phase = Waiting | Preflop | Flop | Turn | River | Showdown

text \<open>
  A seat. The properties \<^verbatim>\<open>id\<close> and \<^verbatim>\<open>name\<close> are called \<open>pid\<close> and \<open>pname\<close>. A hand
  is an array of what \<^verbatim>\<open>deck.pop()\<close> returned, so its elements are cards or
  \<^verbatim>\<open>undefined\<close>.
\<close>

record player =
  pid :: string
  pname :: string
  chips :: int
  hand :: "card option list"
  bet :: int
  folded :: bool
  allIn :: bool
  sitOut :: bool
  connected :: bool
  buyIns :: int
  emoji :: string
  seatIndex :: int

text \<open>
  The log holds \<^verbatim>\<open>{ time: Date.now(), msg }\<close>. The message is kept as the template that
  built it with its arguments; the time stamp is read from the clock, no function of
  the engine reads it back, and it is left out.
\<close>

datatype logmsg =
    MReconnected string
  | MJoined string
  | MDisconnected string
  | MHand int string
  | MPosts string int string
  | MFolds string
  | MChecks string
  | MCalls string int
  | MRaises string int
  | MAllIn string int
  | MWinsFolded string int
  | MStreet string
  | MShows string "card list" string
  | MWins string int

record game =
  roomId :: string
  players :: "player list"
  community :: "card option list"
  pot :: int
  sidePots :: "int list"
  deck :: "card list"
  phase :: phase
  dealerIndex :: int
  currentIndex :: int
  callAmount :: int
  minRaise :: "int option"
  actedThisRound :: "string set"
  roundBets :: "string \<rightharpoonup> int"
  log :: "logmsg list"
  handNumber :: int
  lastAction :: "(string \<times> string \<times> int) option"
  SMALL_BLIND :: int
  BIG_BLIND :: int
  defaultStack :: int

text \<open>
  The error strings of the engine: \<^verbatim>\<open>'Not your turn'\<close>, \<^verbatim>\<open>'Cannot check, must call or
  fold'\<close>, \<^verbatim>\<open>'Raise must be higher than call amount'\<close>, \<^verbatim>\<open>'Not enough chips'\<close>,
  \<^verbatim>\<open>'Unknown action'\<close>, \<^verbatim>\<open>'Need at least 2 players'\<close>, \<^verbatim>\<open>'Table is full'\<close>,
  \<^verbatim>\<open>'Already seated'\<close>, in this order.
\<close>

datatype error =
    NotYourTurn | MustCallOrFold | RaiseTooLow | InsufficientChips
  | UnknownAction | NotEnoughPlayers | TableFull | AlreadySeated

text \<open>
  What an entry point returns: \<^verbatim>\<open>{ success: true, seatIndex }\<close> (the seat index is
  absent for \<^verbatim>\<open>startHand\<close>), \<^verbatim>\<open>{ error }\<close>, or \<^verbatim>\<open>{ advance, ... }\<close> with
  \<^verbatim>\<open>currentPlayer\<close>, \<^verbatim>\<open>phase\<close> and \<^verbatim>\<open>winners\<close> as the source fills them: a winner of
  \<^verbatim>\<open>hand_over\<close> is \<open>(id, name, amount)\<close>, a winner of \<^verbatim>\<open>showdown\<close> is
  \<open>(id, name, handName, amount)\<close>.
\<close>

datatype result =
    Success "int option"
  | Err error
  | NextTurn string
  | NewStreet phase "string option"
  | HandOver "(string \<times> string \<times> int) list"
  | ShowdownOver "(string \<times> string \<times> string \<times> int) list"

text \<open>The optional properties of \<^verbatim>\<open>settings\<close> that \<^verbatim>\<open>startHand\<close> reads.\<close>

record settings =
  smallBlind :: "int option"
  bigBlind :: "int option"

text \<open>
  \<^verbatim>\<open>a % b\<close> truncates towards zero; \<^verbatim>\<open>((x % n) + n) % n\<close> is the source's idiom for a
  seat index in \<open>0..n-1\<close>.
\<close>

definition js_rem :: "int \<Rightarrow> int \<Rightarrow> int" where
  "js_rem a b = sgn a * (\<bar>a\<bar> mod \<bar>b\<bar>)"

definition wrap :: "int \<Rightarrow> int \<Rightarrow> int" where
  "wrap x n = js_rem (js_rem x n + n) n"

text \<open>\<^verbatim>\<open>this.players[i] = p\<close> for a seat \<open>i\<close> that exists (a mutation through a reference).\<close>

definition setp :: "game \<Rightarrow> nat \<Rightarrow> player \<Rightarrow> game" where
  "setp g i p = g\<lparr>players := (players g)[i := p]\<rparr>"

text \<open>\<^verbatim>\<open>addLog\<close>: \<^verbatim>\<open>unshift\<close>, then \<^verbatim>\<open>pop\<close> when the log is longer than 50.\<close>

definition addLog :: "game \<Rightarrow> logmsg \<Rightarrow> game" where
  "addLog g msg =
     (let l = msg # log g in g\<lparr>log := (if length l > 50 then butlast l else l)\<rparr>)"

text \<open>\<^verbatim>\<open>this.players.find(p => p.id === id)\<close>, as the index of the first match.\<close>

fun findIndex :: "('a \<Rightarrow> bool) \<Rightarrow> 'a list \<Rightarrow> nat option" where
  "findIndex P [] = None"
| "findIndex P (x # xs) = (if P x then Some 0 else map_option Suc (findIndex P xs))"

text \<open>The default emoji of the source is a character outside ASCII; its code point stands for it.\<close>

definition DEFAULT_EMOJI :: string where
  "DEFAULT_EMOJI = ''U+1F3AD''"

text \<open>\<^verbatim>\<open>a || b\<close> on numbers and on strings.\<close>

definition or_int :: "int \<Rightarrow> int \<Rightarrow> int" where
  "or_int a b = (if a \<noteq> 0 then a else b)"

definition or_str :: "string \<Rightarrow> string \<Rightarrow> string" where
  "or_str a b = (if a \<noteq> [] then a else b)"

definition addPlayer :: "game \<Rightarrow> string \<Rightarrow> string \<Rightarrow> int \<Rightarrow> string \<Rightarrow> game \<times> result" where
  "addPlayer g ident nm startingStack emj =
     (case findIndex (\<lambda>p. pid p = ident) (players g) of
        Some i \<Rightarrow>
          (let existing = players g ! i in
           if \<not> connected existing then
             (addLog (setp g i (existing\<lparr>connected := True\<rparr>)) (MReconnected (pname existing)),
              Success (Some (seatIndex existing)))
           else (g, Err AlreadySeated))
      | None \<Rightarrow>
          if length (players g) \<ge> 9 then (g, Err TableFull)
          else
            (let player = \<lparr> pid = ident, pname = nm,
                   chips = or_int startingStack (or_int (defaultStack g) 1500),
                   hand = [], bet = 0, folded = False, allIn = False, sitOut = False,
                   connected = True, buyIns = 1, emoji = or_str emj DEFAULT_EMOJI,
                   seatIndex = int (length (players g)) \<rparr>
             in (addLog (g\<lparr>players := players g @ [player]\<rparr>) (MJoined nm),
                 Success (Some (seatIndex player)))))"

definition removePlayer :: "game \<Rightarrow> string \<Rightarrow> game" where
  "removePlayer g ident =
     (case findIndex (\<lambda>p. pid p = ident) (players g) of
        Some i \<Rightarrow>
          (let p = players g ! i
           in addLog (setp g i (p\<lparr>connected := False\<rparr>)) (MDisconnected (pname p)))
      | None \<Rightarrow> g)"

definition reconnectPlayer :: "game \<Rightarrow> string \<Rightarrow> string \<Rightarrow> game" where
  "reconnectPlayer g ident emj =
     (case findIndex (\<lambda>p. pid p = ident) (players g) of
        Some i \<Rightarrow>
          (let p = players g ! i
           in addLog (setp g i (p\<lparr>connected := True\<rparr>)) (MReconnected (pname p)))
      | None \<Rightarrow> g)"

definition activePlayers :: "game \<Rightarrow> player list" where
  "activePlayers g = filter (\<lambda>p. chips p > 0 \<and> connected p \<and> \<not> sitOut p) (players g)"

text \<open>
  \<^verbatim>\<open>inHandPlayers\<close> returns references to seats; the model returns their indices, so
  that a later \<^verbatim>\<open>winner.chips += ...\<close> is an update of that seat.
\<close>

definition inHandPlayers :: "game \<Rightarrow> nat list" where
  "inHandPlayers g =
     filter (\<lambda>i. \<not> folded (players g ! i) \<and> length (hand (players g ! i)) = 2)
       [0 ..< length (players g)]"

text \<open>
  \<^verbatim>\<open>nextActiveIndex(from, step)\<close>. The loop runs while the seat is folded or all-in and
  \<^verbatim>\<open>count < n\<close>; the last argument of the loop is \<open>n - count\<close>. With no seat at all
  \<^verbatim>\<open>this.players[i].folded\<close> throws.
\<close>

fun nextActive_loop :: "player list \<Rightarrow> int \<Rightarrow> int \<Rightarrow> nat \<Rightarrow> int option" where
  "nextActive_loop ps step i 0 = (case at ps i of None \<Rightarrow> None | Some p \<Rightarrow> Some i)"
| "nextActive_loop ps step i (Suc k) =
     (case at ps i of
        None \<Rightarrow> None
      | Some p \<Rightarrow>
          if folded p \<or> allIn p
          then nextActive_loop ps step (wrap (i + step) (int (length ps))) k
          else Some i)"

definition nextActiveIndex :: "game \<Rightarrow> int \<Rightarrow> int \<Rightarrow> int option" where
  "nextActiveIndex g from step =
     (let n = length (players g)
      in nextActive_loop (players g) step (wrap (from + step) (int n)) n)"

definition getCurrentPlayer :: "game \<Rightarrow> player option" where
  "getCurrentPlayer g = (if currentIndex g < 0 then None else at (players g) (currentIndex g))"

section \<open>Starting a hand\<close>

text \<open>
  \<^verbatim>\<open>startHand\<close> up to the loop that resets the seats: the hand counter, the settings
  (\<^verbatim>\<open>if (settings.smallBlind) ...\<close> takes a value that is defined and not zero), the
  fresh deck and the cleared fields.
\<close>

definition resetPlayer :: "player \<Rightarrow> player" where
  "resetPlayer p =
     p\<lparr>hand := [], bet := 0, folded := (chips p \<le> 0 \<or> \<not> connected p \<or> sitOut p),
       allIn := False\<rparr>"

definition resetForHand :: "game \<Rightarrow> settings \<Rightarrow> (nat \<Rightarrow> nat) \<Rightarrow> game" where
  "resetForHand g st rand =
     (let g1 = g\<lparr>handNumber := handNumber g + 1\<rparr>;
          g2 = (case smallBlind st of
                  None \<Rightarrow> g1
                | Some x \<Rightarrow> if x \<noteq> 0 then g1\<lparr>SMALL_BLIND := x\<rparr> else g1);
          g3 = (case bigBlind st of
                  None \<Rightarrow> g2
                | Some x \<Rightarrow> if x \<noteq> 0 then g2\<lparr>BIG_BLIND := x\<rparr> else g2);
          g4 = g3\<lparr>deck := newDeck rand, community := [], pot := 0, sidePots := [],
                 callAmount := BIG_BLIND g3, minRaise := Some (BIG_BLIND g3),
                 actedThisRound := {}, roundBets := Map.empty, lastAction := None\<rparr>
      in g4\<lparr>players := map resetPlayer (players g4)\<rparr>)"

text \<open>
  \<^verbatim>\<open>for (const p of this.players) if (!p.folded) p.hand = [this.deck.pop(), this.deck.pop()]\<close>,
  threading the deck.
\<close>

fun deal_loop :: "player list \<Rightarrow> card list \<Rightarrow> player list \<times> card list" where
  "deal_loop [] d = ([], d)"
| "deal_loop (p # ps) d =
     (if \<not> folded p then
        (let (c1, d1) = pop d; (c2, d2) = pop d1; (ps', d') = deal_loop ps d2
         in (p\<lparr>hand := [c1, c2]\<rparr> # ps', d'))
      else (let (ps', d') = deal_loop ps d in (p # ps', d')))"

text \<open>\<^verbatim>\<open>postBlind(idx, amount, type)\<close>; a seat that does not exist throws.\<close>

definition postBlind :: "game \<Rightarrow> int \<Rightarrow> int \<Rightarrow> string \<Rightarrow> game option" where
  "postBlind g idx amount type =
     (case at (players g) idx of
        None \<Rightarrow> None
      | Some p \<Rightarrow>
          (let actual = min amount (chips p);
               p1 = p\<lparr>chips := chips p - actual, bet := bet p + actual\<rparr>;
               g1 = g\<lparr>pot := pot g + actual,
                      roundBets := (roundBets g)(pid p \<mapsto> or0 (roundBets g (pid p)) + actual)\<rparr>;
               p2 = (if chips p1 = 0 then p1\<lparr>allIn := True\<rparr> else p1)
           in Some (setp g1 (nat idx) p2)))"

definition startHand :: "game \<Rightarrow> settings \<Rightarrow> (nat \<Rightarrow> nat) \<Rightarrow> (game \<times> result) option" where
  "startHand g st rand =
     (if length (activePlayers g) < 2 then Some (g, Err NotEnoughPlayers)
      else do {
        let g5 = resetForHand g st rand;
        d \<leftarrow> nextActiveIndex g5 (dealerIndex g5) 1;
        let g6 = g5\<lparr>dealerIndex := d\<rparr>;
        let g7 = g6\<lparr>players := fst (deal_loop (players g6) (deck g6)),
                   deck := snd (deal_loop (players g6) (deck g6))\<rparr>;
        sbIdx \<leftarrow> nextActiveIndex g7 (dealerIndex g7) 1;
        bbIdx \<leftarrow> nextActiveIndex g7 sbIdx 1;
        g8 \<leftarrow> postBlind g7 sbIdx (SMALL_BLIND g7) ''SB'';
        g9 \<leftarrow> postBlind g8 bbIdx (BIG_BLIND g8) ''BB'';
        let g10 = g9\<lparr>phase := Preflop\<rparr>;
        ci \<leftarrow> nextActiveIndex g10 bbIdx 1;
        let g11 = g10\<lparr>currentIndex := ci\<rparr>;
        dealer \<leftarrow> at (players g11) (dealerIndex g11);
        let g12 = addLog g11 (MHand (handNumber g11) (pname dealer));
        sb \<leftarrow> at (players g12) sbIdx;
        let g13 = addLog g12 (MPosts (pname sb) (SMALL_BLIND g12) ''SB'');
        bb \<leftarrow> at (players g13) bbIdx;
        let g14 = addLog g13 (MPosts (pname bb) (BIG_BLIND g13) ''BB'');
        Some (g14, Success None)
      })"

section \<open>Showdown and street advancement\<close>

text \<open>
  The first loop of \<^verbatim>\<open>showdown\<close>, over the seats still in the hand: \<^verbatim>\<open>bestOf7\<close> of the
  hole cards and the community cards, the log line (which reads \<^verbatim>\<open>c.r\<close> of each hole
  card), and the running maximum \<^verbatim>\<open>bestScore\<close>.
\<close>

fun showdown_loop ::
  "game \<Rightarrow> nat list \<Rightarrow> (nat \<times> hand_result) list \<Rightarrow> jsnum
     \<Rightarrow> (game \<times> (nat \<times> hand_result) list \<times> jsnum) option"
where
  "showdown_loop g [] results bestScore = Some (g, results, bestScore)"
| "showdown_loop g (i # rest) results bestScore =
     (let p = players g ! i in
      case bestOf7 (hand p @ community g) of
        None \<Rightarrow> None
      | Some h \<Rightarrow>
          (case those (hand p) of
             None \<Rightarrow> None
           | Some cs \<Rightarrow>
               showdown_loop (addLog g (MShows (pname p) cs (hname h))) rest
                 (results @ [(i, h)])
                 (if js_gt (score h) bestScore then score h else bestScore)))"

text \<open>\<^verbatim>\<open>for (const { player } of winners) { player.chips += share; this.addLog(...) }\<close>\<close>

fun pay_loop :: "game \<Rightarrow> (nat \<times> hand_result) list \<Rightarrow> int \<Rightarrow> game" where
  "pay_loop g [] share = g"
| "pay_loop g ((i, h) # rest) share =
     (let p = players g ! i
      in pay_loop (addLog (setp g i (p\<lparr>chips := chips p + share\<rparr>)) (MWins (pname p) share))
           rest share)"

text \<open>
  \<^verbatim>\<open>showdown\<close>. \<^verbatim>\<open>Math.floor(this.pot / winners.length)\<close> is \<open>div\<close> on integers for at
  least one winner; with no winner the source computes \<^verbatim>\<open>Infinity\<close> or \<^verbatim>\<open>NaN\<close>, which
  nothing reads, because the loop over the winners and \<^verbatim>\<open>winnerInfo\<close> are empty.
\<close>

definition showdown :: "game \<Rightarrow> (game \<times> result) option" where
  "showdown g =
     (let g1 = addLog (g\<lparr>phase := Showdown\<rparr>) (MStreet ''SHOWDOWN'') in
      case showdown_loop g1 (inHandPlayers g1) [] (Num (- 1)) of
        None \<Rightarrow> None
      | Some (g2, results, bestScore) \<Rightarrow>
          (let winners = filter (\<lambda>(i, h). js_eq (score h) bestScore) results;
               share = pot g2 div int (length winners);
               g3 = pay_loop g2 winners share;
               winnerInfo =
                 map (\<lambda>(i, h). (pid (players g3 ! i), pname (players g3 ! i), hname h, share))
                   winners
           in Some (g3\<lparr>pot := 0, phase := Waiting\<rparr>, ShowdownOver winnerInfo)))"

text \<open>\<^verbatim>\<open>this.community.push(this.deck.pop(), ...)\<close>, one card at a time.\<close>

fun dealCommunity :: "nat \<Rightarrow> game \<Rightarrow> game" where
  "dealCommunity 0 g = g"
| "dealCommunity (Suc k) g =
     dealCommunity k (g\<lparr>deck := snd (pop (deck g)), community := community g @ [fst (pop (deck g))]\<rparr>)"

text \<open>
  \<^verbatim>\<open>nextStreet\<close>. The phases exclude each other, so the branch of the river, the only
  one that returns early, is tested first; any other phase falls through the chain.
\<close>

definition nextStreet :: "game \<Rightarrow> (game \<times> result) option" where
  "nextStreet g =
     (let g1 = g\<lparr>players := map (\<lambda>p. p\<lparr>bet := 0\<rparr>) (players g), callAmount := 0,
                 minRaise := Some (BIG_BLIND g), actedThisRound := {}, roundBets := Map.empty\<rparr>
      in
      if phase g1 = River then showdown g1
      else do {
        let g2 =
          (if phase g1 = Preflop then addLog ((dealCommunity 3 g1)\<lparr>phase := Flop\<rparr>) (MStreet ''FLOP'')
           else if phase g1 = Flop then addLog ((dealCommunity 1 g1)\<lparr>phase := Turn\<rparr>) (MStreet ''TURN'')
           else if phase g1 = Turn then addLog ((dealCommunity 1 g1)\<lparr>phase := River\<rparr>) (MStreet ''RIVER'')
           else g1);
        ci \<leftarrow> nextActiveIndex g2 (dealerIndex g2) 1;
        let g3 = g2\<lparr>currentIndex := ci\<rparr>;
        Some (g3, NewStreet (phase g3) (map_option pid (at (players g3) (currentIndex g3))))
      })"

section \<open>Actions and turn order\<close>

text \<open>
  \<^verbatim>\<open>findNextToAct\<close>: at most \<open>n\<close> seats are tried, starting after \<^verbatim>\<open>currentIndex\<close>; the
  last argument of the loop is \<open>n - count\<close>.
\<close>

fun findNext_loop :: "game \<Rightarrow> int \<Rightarrow> nat \<Rightarrow> int option" where
  "findNext_loop g i 0 = Some (- 1)"
| "findNext_loop g i (Suc k) =
     (case at (players g) i of
        None \<Rightarrow> None
      | Some p \<Rightarrow>
          if \<not> folded p \<and> \<not> allIn p \<and> (pid p \<notin> actedThisRound g \<or> bet p < callAmount g)
          then Some i
          else findNext_loop g (wrap (i + 1) (int (length (players g)))) k)"

definition findNextToAct :: "game \<Rightarrow> int option" where
  "findNextToAct g =
     (let n = length (players g) in findNext_loop g (wrap (currentIndex g + 1) (int n)) n)"

text \<open>
  \<^verbatim>\<open>advanceTurn\<close>. The reported \<^verbatim>\<open>amount: this.pot\<close> of \<^verbatim>\<open>hand_over\<close> is read after the
  pot is set to 0.
\<close>

definition advanceTurn :: "game \<Rightarrow> (game \<times> result) option" where
  "advanceTurn g =
     (case inHandPlayers g of
        [w] \<Rightarrow>
          (let winner = players g ! w;
               g1 = setp g w (winner\<lparr>chips := chips winner + pot g\<rparr>);
               g2 = addLog g1 (MWinsFolded (pname winner) (pot g1));
               g3 = g2\<lparr>pot := 0, phase := Waiting\<rparr>
           in Some (g3, HandOver [(pid winner, pname winner, pot g3)]))
      | _ \<Rightarrow>
          do {
            next \<leftarrow> findNextToAct g;
            if next = - 1 then nextStreet g
            else do {
              p \<leftarrow> at (players g) next;
              Some (g\<lparr>currentIndex := next\<rparr>, NextTurn (pid p))
            }
          })"

text \<open>
  The \<^verbatim>\<open>switch (action)\<close> of \<^verbatim>\<open>applyAction\<close> for the seat \<open>ci\<close> whose turn it is: the
  error it returns, or the state when it reaches \<^verbatim>\<open>this.actedThisRound.add(playerId)\<close>.
\<close>

definition actionSwitch :: "game \<Rightarrow> nat \<Rightarrow> string \<Rightarrow> int \<Rightarrow> error + game" where
  "actionSwitch g ci action amount =
     (let p = players g ! ci; toCall = callAmount g - bet p in
      if action = ''fold'' then
        Inr (addLog (setp g ci (p\<lparr>folded := True\<rparr>)) (MFolds (pname p)))
      else if action = ''check'' then
        (if toCall > 0 then Inl MustCallOrFold else Inr (addLog g (MChecks (pname p))))
      else if action = ''call'' then
        (let amt = min toCall (chips p);
             p1 = p\<lparr>chips := chips p - amt, bet := bet p + amt\<rparr>;
             p2 = (if chips p1 = 0 then p1\<lparr>allIn := True\<rparr> else p1)
         in Inr (addLog ((setp g ci p2)\<lparr>pot := pot g + amt\<rparr>) (MCalls (pname p) amt)))
      else if action = ''raise'' then
        (if amount \<le> callAmount g then Inl RaiseTooLow
         else if amount > chips p + bet p then Inl InsufficientChips
         else
           (let extra = amount - bet p;
                p1 = p\<lparr>chips := chips p - extra, bet := amount\<rparr>;
                g1 = g\<lparr>pot := pot g + extra, callAmount := amount\<rparr>;
                g2 = g1\<lparr>minRaise := Some (amount - callAmount g1), actedThisRound := {}\<rparr>;
                p2 = (if chips p1 = 0 then p1\<lparr>allIn := True\<rparr> else p1)
            in Inr (addLog (setp g2 ci p2) (MRaises (pname p) amount))))
      else if action = ''allin'' then
        (let amt = chips p;
             p1 = p\<lparr>bet := bet p + amt, chips := 0, allIn := True\<rparr>;
             g1 = (setp g ci p1)\<lparr>pot := pot g + amt\<rparr>;
             g2 = (if bet p1 > callAmount g1
                   then g1\<lparr>callAmount := bet p1, actedThisRound := {}\<rparr> else g1)
         in Inr (addLog g2 (MAllIn (pname p) (bet p1))))
      else Inl UnknownAction)"

definition applyAction :: "game \<Rightarrow> string \<Rightarrow> string \<Rightarrow> int \<Rightarrow> (game \<times> result) option" where
  "applyAction g playerId action amount =
     (case at (players g) (currentIndex g) of
        None \<Rightarrow> Some (g, Err NotYourTurn)
      | Some p \<Rightarrow>
          if pid p \<noteq> playerId then Some (g, Err NotYourTurn)
          else
            (case actionSwitch g (nat (currentIndex g)) action amount of
               Inl e \<Rightarrow> Some (g, Err e)
             | Inr g1 \<Rightarrow>
                 advanceTurn
                   (g1\<lparr>actedThisRound := insert playerId (actedThisRound g1),
                       lastAction := Some (playerId, action, amount)\<rparr>)))"

section \<open>The view sent to a player\<close>

record player_view =
  v_id :: string
  v_name :: string
  v_chips :: int
  v_bet :: int
  v_folded :: bool
  v_allIn :: bool
  v_connected :: bool
  v_seatIndex :: int
  v_cardCount :: nat
  v_buyIns :: int
  v_emoji :: string
  v_hand :: "card option list option"

record view =
  v_phase :: phase
  v_pot :: int
  v_community :: "card option list"
  v_dealerIndex :: int
  v_currentPlayerId :: "string option"
  v_callAmount :: int
  v_minRaise :: "int option"
  v_handNumber :: int
  v_players :: "player_view list"
  v_log :: "logmsg list"
  v_lastAction :: "(string \<times> string \<times> int) option"

text \<open>
  One entry of \<^verbatim>\<open>players\<close> in \<^verbatim>\<open>getStateFor(playerId)\<close>; \<open>viewer\<close> is \<open>None\<close> for
  \<^verbatim>\<open>null\<close>, which no seat's id equals.
\<close>

definition playerView :: "phase \<Rightarrow> string option \<Rightarrow> player \<Rightarrow> player_view" where
  "playerView ph viewer p =
     \<lparr> v_id = pid p, v_name = pname p, v_chips = chips p, v_bet = bet p,
       v_folded = folded p, v_allIn = allIn p, v_connected = connected p,
       v_seatIndex = seatIndex p, v_cardCount = length (hand p),
       v_buyIns = or_int (buyIns p) 1, v_emoji = or_str (emoji p) DEFAULT_EMOJI,
       v_hand = (if Some (pid p) = viewer \<or> ph = Showdown then Some (hand p) else None) \<rparr>"

text \<open>
  \<^verbatim>\<open>getStateFor\<close>. \<^verbatim>\<open>this.players[this.currentIndex]?.id || null\<close> is \<^verbatim>\<open>null\<close> for a
  missing seat and for an empty id.
\<close>

definition getStateFor :: "game \<Rightarrow> string option \<Rightarrow> view" where
  "getStateFor g viewer =
     \<lparr> v_phase = phase g, v_pot = pot g, v_community = community g,
       v_dealerIndex = dealerIndex g,
       v_currentPlayerId =
         (case at (players g) (currentIndex g) of
            None \<Rightarrow> None
          | Some p \<Rightarrow> if pid p = [] then None else Some (pid p)),
       v_callAmount = callAmount g, v_minRaise = minRaise g, v_handNumber = handNumber g,
       v_players = map (playerView (phase g) viewer) (players g),
       v_log = take 20 (log g), v_lastAction = lastAction g \<rparr>"

text \<open>The test that \<^verbatim>\<open>findNextToAct\<close> makes on a seat, as a predicate.\<close>

definition mustAct :: "game \<Rightarrow> player \<Rightarrow> bool" where
  "mustAct g p = (\<not> folded p \<and> \<not> allIn p \<and> (pid p \<notin> actedThisRound g \<or> bet p < callAmount g))"

text \<open>
  No \<^verbatim>\<open>undefined\<close> among the hole cards and the community cards: what a deck that
  never ran empty has dealt.
\<close>

definition cards_defined :: "game \<Rightarrow> bool" where
  "cards_defined g = (list_all (\<lambda>p. list_all (\<lambda>c. c \<noteq> None) (hand p)) (players g)
                      \<and> list_all (\<lambda>c. c \<noteq> None) (community g))"

text \<open>
  The quantity the specification calls conserved, chips plus street bets plus pot, and
  the chips in play, chips plus pot. An action adds what it commits to the street bet
  and to the pot alike.
\<close>

definition chips_bets_pot :: "game \<Rightarrow> int" where
  "chips_bets_pot g = sum_list (map chips (players g)) + sum_list (map bet (players g)) + pot g"

definition chips_pot :: "game \<Rightarrow> int" where
  "chips_pot g = sum_list (map chips (players g)) + pot g"

section \<open>The constructor, and tables for the examples\<close>

text \<open>
  \<^verbatim>\<open>new PokerGame(roomId)\<close>. The constructor reads \<^verbatim>\<open>this.BIG_BLIND\<close> for \<^verbatim>\<open>minRaise\<close>
  before it is assigned, so \<^verbatim>\<open>minRaise\<close> starts \<^verbatim>\<open>undefined\<close>.
\<close>

definition newGame :: "string \<Rightarrow> game" where
  "newGame rid =
     \<lparr> roomId = rid, players = [], community = [], pot = 0, sidePots = [], deck = [],
       phase = Waiting, dealerIndex = - 1, currentIndex = - 1, callAmount = 0,
       minRaise = None, actedThisRound = {}, roundBets = Map.empty, log = [],
       handNumber = 0, lastAction = None, SMALL_BLIND = 25, BIG_BLIND = 50,
       defaultStack = 1500 \<rparr>"

text \<open>
  A connected seat with the given id, chips, street bet and hole cards, neither folded
  nor all-in; the concrete tables below are built from such seats.
\<close>

definition seat :: "string \<Rightarrow> int \<Rightarrow> int \<Rightarrow> card option list \<Rightarrow> player" where
  "seat ident c b h =
     \<lparr> pid = ident, pname = ident, chips = c, hand = h, bet = b, folded = False,
       allIn = False, sitOut = False, connected = True, buyIns = 1, emoji = [],
       seatIndex = 0 \<rparr>"

definition hole_a :: "card option list" where
  "hole_a = [Some (Card RA Spades), Some (Card RK Spades)]"

definition hole_b :: "card option list" where
  "hole_b = [Some (Card R7 Hearts), Some (Card R2 Clubs)]"

text \<open>
  Two seats that have both acted, one with a street bet of 100 above the call amount
  of 50 (a small blind of 100 posted against a big blind of 50 gives such a street).
\<close>

definition overbet_table :: game where
  "overbet_table =
     (newGame ''R'')\<lparr>players := [seat ''a'' 1400 100 hole_a, seat ''b'' 1450 50 hole_b],
       phase := Preflop, currentIndex := 1, callAmount := 50,
       actedThisRound := {''a'', ''b''}\<rparr>"

text \<open>Two seats that have both acted; the second has 25 in against a call amount of 50.\<close>

definition facing_table :: game where
  "facing_table =
     (newGame ''R'')\<lparr>players := [seat ''a'' 1450 50 hole_a, seat ''b'' 1475 25 hole_b],
       phase := Preflop, currentIndex := 0, callAmount := 50,
       actedThisRound := {''a'', ''b''}\<rparr>"

text \<open>
  Heads-up after the blinds of 25 and 50: seat 0 is the dealer and the big blind, seat 1
  the small blind, whose turn it is.
\<close>

definition blinds_table :: game where
  "blinds_table =
     (newGame ''R'')\<lparr>players := [seat ''a'' 1450 50 hole_a, seat ''b'' 1475 25 hole_b],
       pot := 75, phase := Preflop, dealerIndex := 0, currentIndex := 1, callAmount := 50,
       minRaise := Some 50, handNumber := 1\<rparr>"

text \<open>
  Heads-up on the river with a pot of 201: the board is a straight to the ace, and
  neither seat's hole cards improve on it. Seat 1 has checked and seat 0 is to act.
\<close>

definition river_table :: game where
  "river_table =
     (newGame ''R'')\<lparr>players := [seat ''a'' 1400 0 hole_a, seat ''b'' 1400 0 hole_b],
       community := [Some (Card R10 Hearts), Some (Card RJ Diamonds), Some (Card RQ Clubs),
                     Some (Card RK Diamonds), Some (Card RA Hearts)],
       pot := 201, phase := River, dealerIndex := 1, currentIndex := 0, callAmount := 0,
       minRaise := Some 50, actedThisRound := {''b''}, handNumber := 1\<rparr>"

text \<open>Two seats of 1500 each at a table that waits for its first hand.\<close>

definition seated_table :: game where
  "seated_table = (newGame ''R'')\<lparr>players := [seat ''a'' 1500 0 [], seat ''b'' 1500 0 []]\<rparr>"

text \<open>
  Heads-up after \<^verbatim>\<open>startHand({ bigBlind: -50 })\<close>: the big blind of -50 has raised the chips
  of seat 0 to 1550, seat 1 has posted the small blind of 25 and is to act.
\<close>

definition negative_blind_table :: game where
  "negative_blind_table =
     (newGame ''R'')\<lparr>players := [seat ''a'' 1550 (- 50) hole_a, seat ''b'' 1475 25 hole_b],
       pot := - 25, phase := Preflop, dealerIndex := 0, currentIndex := 1,
       callAmount := - 50, minRaise := Some (- 50), handNumber := 1, BIG_BLIND := - 50\<rparr>"

section \<open>Properties of the hand evaluator\<close>

lemma without_map: "without i j (map f xs) = map f (without i j xs)"
  unfolding without_def enumerate_eq_zip
  by (induction xs rule: rev_induct) auto

lemma those_map_Some: "those (map Some xs) = Some xs"
  by (induction xs) auto

lemma evalFive_defined:
  "evalFive (map Some cs) = Some \<lparr> hrank = fst (category cs), hname = snd (category cs), score = scoreOf cs \<rparr>"
  by (simp add: evalFive_def those_map_Some)

lemma scoreOf_Num: "cs \<noteq> [] \<Longrightarrow> \<exists>k. scoreOf cs = Num k"
  by (cases cs) (auto simp: scoreOf_def tieVals_def at_def vals_def split: option.splits)

lemma evalFive_five:
  assumes "length cs = 5"
  shows "\<exists>h k. evalFive (map Some cs) = Some h \<and> score h = Num k"
proof -
  from assms have "cs \<noteq> []" by auto
  then obtain k where "scoreOf cs = Num k" using scoreOf_Num by blast
  then show ?thesis by (simp add: evalFive_defined)
qed

lemma seven_subsets:
  "map (\<lambda>(i, j). without i j [a, b, c, d, e, f, g]) (index_pairs 7)
     = rev (five_subsets [a, b, c, d, e, f, g])"
  by (simp add: index_pairs_def without_def enumerate_eq_zip five_subsets_def upt_rec Let_def)

lemma length7: "length xs = 7 \<Longrightarrow> \<exists>a b c d e f g. xs = [a, b, c, d, e, f, g]"
  by (auto simp: length_Suc_conv numeral_eq_Suc)

text \<open>The loop over a list of fives.\<close>

lemma bestOf7_loop_max:
  assumes "\<forall>p \<in> set ps. length (without (fst p) (snd p) xs) = 5"
      and "best = None \<or> (\<exists>b k. best = Some b \<and> score b = Num k)"
  shows "\<exists>r. bestOf7_loop (map Some xs) ps best = Some r \<and>
           (r = None \<longrightarrow> best = None \<and> ps = []) \<and>
           (\<forall>b. r = Some b \<longrightarrow>
              (\<exists>kb. score b = Num kb \<and>
                 (best = Some b \<or> (\<exists>p \<in> set ps. evalFive (map Some (without (fst p) (snd p) xs)) = Some b)) \<and>
                 (\<forall>p \<in> set ps. \<exists>h k. evalFive (map Some (without (fst p) (snd p) xs)) = Some h
                      \<and> score h = Num k \<and> k \<le> kb) \<and>
                 (\<forall>b0 k0. best = Some b0 \<longrightarrow> score b0 = Num k0 \<longrightarrow> k0 \<le> kb)))"
  using assms
proof (induction ps arbitrary: best)
  case Nil
  then show ?case by auto
next
  case (Cons p ps)
  obtain i j where p: "p = (i, j)" by (cases p)
  let ?five = "without i j xs"
  from Cons.prems(1) p have len: "length ?five = 5" by simp
  then obtain h k where h: "evalFive (map Some ?five) = Some h" "score h = Num k"
    using evalFive_five by blast
  let ?best' = "case best of None \<Rightarrow> Some h | Some b \<Rightarrow> if js_gt (score h) (score b) then Some h else Some b"
  have step: "bestOf7_loop (map Some xs) (p # ps) best = bestOf7_loop (map Some xs) ps ?best'"
    using len h by (simp add: p without_map)
  have ok': "?best' = None \<or> (\<exists>b k. ?best' = Some b \<and> score b = Num k)"
    using Cons.prems(2) h by (auto split: option.splits)
  have all5: "\<forall>p \<in> set ps. length (without (fst p) (snd p) xs) = 5"
    using Cons.prems(1) by simp
  from Cons.IH[OF all5 ok'] obtain r where r:
    "bestOf7_loop (map Some xs) ps ?best' = Some r"
    "r = None \<longrightarrow> ?best' = None \<and> ps = []"
    "\<forall>b. r = Some b \<longrightarrow>
              (\<exists>kb. score b = Num kb \<and>
                 (?best' = Some b \<or> (\<exists>p \<in> set ps. evalFive (map Some (without (fst p) (snd p) xs)) = Some b)) \<and>
                 (\<forall>p \<in> set ps. \<exists>h k. evalFive (map Some (without (fst p) (snd p) xs)) = Some h
                      \<and> score h = Num k \<and> k \<le> kb) \<and>
                 (\<forall>b0 k0. ?best' = Some b0 \<longrightarrow> score b0 = Num k0 \<longrightarrow> k0 \<le> kb))"
    by blast
  have nn: "?best' \<noteq> None" by (simp split: option.splits)
  with r(2) obtain b where rb: "r = Some b" by (cases r) auto
  with r(3) obtain kb where kb: "score b = Num kb"
     "?best' = Some b \<or> (\<exists>p \<in> set ps. evalFive (map Some (without (fst p) (snd p) xs)) = Some b)"
     "\<forall>p \<in> set ps. \<exists>h k. evalFive (map Some (without (fst p) (snd p) xs)) = Some h
                      \<and> score h = Num k \<and> k \<le> kb"
     "\<forall>b0 k0. ?best' = Some b0 \<longrightarrow> score b0 = Num k0 \<longrightarrow> k0 \<le> kb"
    by blast
  have A: "best = Some b \<or> (\<exists>q \<in> set (p # ps). evalFive (map Some (without (fst q) (snd q) xs)) = Some b)"
    using kb(2) h(1) p by (auto split: option.splits if_splits)
  have hk: "k \<le> kb"
    using kb(4) h(2) Cons.prems(2) by (cases best) (auto split: if_splits)
  have B: "\<forall>q \<in> set (p # ps). \<exists>h k. evalFive (map Some (without (fst q) (snd q) xs)) = Some h
                      \<and> score h = Num k \<and> k \<le> kb"
    using kb(3) h hk p by auto
  have C: "\<forall>b0 k0. best = Some b0 \<longrightarrow> score b0 = Num k0 \<longrightarrow> k0 \<le> kb"
    using kb(4) h(2) hk by (auto split: if_splits)
  show ?case
    unfolding step using r(1) rb kb(1) A B C by auto
qed

lemma RANK_VAL_range: "2 \<le> RANK_VAL x \<and> RANK_VAL x \<le> 14"
  by (cases x) auto

lemma vals_range: "v \<in> set (vals cs) \<Longrightarrow> 2 \<le> v \<and> v \<le> 14"
  using RANK_VAL_range by (auto simp: vals_def)

lemma tieVals_range: "v \<in> set (tieVals cs) \<Longrightarrow> 1 \<le> v \<and> v \<le> 14"
  using vals_range by (fastforce simp: tieVals_def split: if_splits)

lemma at_in_set: "at xs i = Some v \<Longrightarrow> v \<in> set xs"
  by (auto simp: at_def split: if_splits)

lemma or0_tie_bounds: "0 \<le> or0 (at (tieVals cs) i) \<and> or0 (at (tieVals cs) i) \<le> 14"
proof (cases "at (tieVals cs) i")
  case None
  then show ?thesis by (simp add: or0_def)
next
  case (Some v)
  then have "1 \<le> v \<and> v \<le> 14" by (intro tieVals_range at_in_set)
  with Some show ?thesis by (simp add: or0_def)
qed

lemma tieVals_nonempty: "cs \<noteq> [] \<Longrightarrow> tieVals cs \<noteq> []"
proof -
  assume "cs \<noteq> []"
  moreover have "length (vals cs) = length cs" by (simp add: vals_def)
  ultimately show ?thesis by (auto simp: tieVals_def)
qed

lemma scoreOf_unfold:
  assumes t0: "at (tieVals cs) 0 = Some t0"
  shows "scoreOf cs = Num (fst (category cs) * 10000000000 + (t0 * 10000000
           + or0 (at (tieVals cs) 1) * 100000 + or0 (at (tieVals cs) 2) * 1000
           + or0 (at (tieVals cs) 3) * 10 + or0 (at (tieVals cs) 4)))"
  unfolding scoreOf_def t0 by (simp only: option.case add.assoc)

lemma tie_sum_bounds:
  fixes t0 a b c d :: int
  assumes "1 \<le> t0 \<and> t0 \<le> 14" "0 \<le> a \<and> a \<le> 14" "0 \<le> b \<and> b \<le> 14"
    "0 \<le> c \<and> c \<le> 14" "0 \<le> d \<and> d \<le> 14"
  shows "0 \<le> t0 * 10000000 + a * 100000 + b * 1000 + c * 10 + d \<and>
         t0 * 10000000 + a * 100000 + b * 1000 + c * 10 + d \<le> 141414154"
  using assms by linarith

lemma scoreOf_bounds:
  assumes "cs \<noteq> []"
  shows "\<exists>t. scoreOf cs = Num (fst (category cs) * 10000000000 + t) \<and> 0 \<le> t \<and> t \<le> 141414154"
proof -
  from tieVals_nonempty[OF assms] obtain t0 where t0: "at (tieVals cs) 0 = Some t0"
    by (simp add: at_def)
  then have b0: "1 \<le> t0 \<and> t0 \<le> 14" by (intro tieVals_range at_in_set)
  have s: "scoreOf cs = Num (fst (category cs) * 10000000000 + (t0 * 10000000
           + or0 (at (tieVals cs) 1) * 100000 + or0 (at (tieVals cs) 2) * 1000
           + or0 (at (tieVals cs) 3) * 10 + or0 (at (tieVals cs) 4)))"
    by (rule scoreOf_unfold[OF t0])
  have b: "0 \<le> t0 * 10000000
           + or0 (at (tieVals cs) 1) * 100000 + or0 (at (tieVals cs) 2) * 1000
           + or0 (at (tieVals cs) 3) * 10 + or0 (at (tieVals cs) 4) \<and> t0 * 10000000
           + or0 (at (tieVals cs) 1) * 100000 + or0 (at (tieVals cs) 2) * 1000
           + or0 (at (tieVals cs) 3) * 10 + or0 (at (tieVals cs) 4) \<le> 141414154"
    by (rule tie_sum_bounds[OF b0 or0_tie_bounds[of cs 1] or0_tie_bounds[of cs 2]
        or0_tie_bounds[of cs 3] or0_tie_bounds[of cs 4]])
  show ?thesis
    by (rule exI, rule conjI, rule s, rule b)
qed

lemma category_dominates:
  assumes "a \<noteq> []" "b \<noteq> []" "fst (category a) > fst (category b)"
  shows "\<exists>ka kb. scoreOf a = Num ka \<and> scoreOf b = Num kb \<and> ka > kb"
proof -
  obtain ta where ta: "scoreOf a = Num (fst (category a) * 10000000000 + ta)" "0 \<le> ta" "ta \<le> 141414154"
    using scoreOf_bounds[OF assms(1)] by blast
  obtain tb where tb: "scoreOf b = Num (fst (category b) * 10000000000 + tb)" "0 \<le> tb" "tb \<le> 141414154"
    using scoreOf_bounds[OF assms(2)] by blast
  from assms(3) have "fst (category b) * 10000000000 + tb < fst (category a) * 10000000000 + ta"
    using ta(2) tb(3) by linarith
  with ta(1) tb(1) show ?thesis by blast
qed

text \<open>
  C3 (the score orders hands by category, then by their tie-break ranks
  lexicographically; the wheel counts its ace as 1). The category does dominate
  (\<open>category_dominates\<close>) and the wheel's tie-break ranks are 5, 4, 3, 2, 1, but the
  weights of the last two tie-break ranks are 10 and 1 while a rank goes up to 14. The
  two hands below, aces and kings with a deuce against aces and queens with a king, are
  both Two Pair; the first has the greater tie-break ranks (13 against 12 at the fourth
  position), and \<open>evalFive\<close> gives both the same score.
\<close>

theorem evalFive_two_pair_tie:
  "evalFive (map Some [Card RA Spades, Card RA Hearts, Card RK Spades, Card RK Hearts, Card R2 Spades])
     = Some \<lparr> hrank = 2, hname = ''Two Pair'', score = Num 20141413132 \<rparr> \<and>
   evalFive (map Some [Card RA Diamonds, Card RA Clubs, Card RQ Spades, Card RQ Hearts, Card RK Diamonds])
     = Some \<lparr> hrank = 2, hname = ''Two Pair'', score = Num 20141413132 \<rparr> \<and>
   tieVals [Card RA Spades, Card RA Hearts, Card RK Spades, Card RK Hearts, Card R2 Spades]
     = [14, 14, 13, 13, 2] \<and>
   tieVals [Card RA Diamonds, Card RA Clubs, Card RQ Spades, Card RQ Hearts, Card RK Diamonds]
     = [14, 14, 13, 12, 12] \<and>
   lex_gt (tieVals [Card RA Spades, Card RA Hearts, Card RK Spades, Card RK Hearts, Card R2 Spades])
     (tieVals [Card RA Diamonds, Card RA Clubs, Card RQ Spades, Card RQ Hearts, Card RK Diamonds])"
  by code_simp

text \<open>
  C4 (\<open>bestOf7\<close> of seven cards is the \<open>evalFive\<close> result of one of the 21 five-card
  subsets, and no five-card subset scores higher). The subsets are the subsequences of
  length five, defined apart from the loop; the loop visits them in reverse order.
\<close>

theorem bestOf7_max:
  assumes "length cards = 7"
  shows "length (five_subsets cards) = 21 \<and>
         (\<exists>best kb. bestOf7 (map Some cards) = Some best \<and> score best = Num kb \<and>
            (\<exists>five \<in> set (five_subsets cards). evalFive (map Some five) = Some best) \<and>
            (\<forall>five \<in> set (five_subsets cards).
               \<exists>h k. evalFive (map Some five) = Some h \<and> score h = Num k \<and> k \<le> kb))"
proof -
  from assms obtain a b c d e f g where xs: "cards = [a, b, c, d, e, f, g]"
    using length7 by blast
  let ?ps = "index_pairs 7"
  have fives: "map (\<lambda>(i, j). without i j cards) ?ps = rev (five_subsets cards)"
    unfolding xs by (rule seven_subsets)
  have setfives: "(\<lambda>p. without (fst p) (snd p) cards) ` set ?ps = set (five_subsets cards)"
  proof -
    have "set (map (\<lambda>(i, j). without i j cards) ?ps) = set (five_subsets cards)"
      unfolding fives by simp
    then show ?thesis by (simp add: case_prod_beta image_def)
  qed
  have len5: "\<forall>s \<in> set (five_subsets cards). length s = 5"
    by (simp add: five_subsets_def)
  have all5: "\<forall>p \<in> set ?ps. length (without (fst p) (snd p) cards) = 5"
    using setfives len5 by blast
  have n21: "length (five_subsets cards) = 21"
    unfolding xs by (simp add: five_subsets_def Let_def)
  have ne: "?ps \<noteq> []" by (simp add: index_pairs_def upt_rec)
  from bestOf7_loop_max[OF all5, of None] obtain r where r:
    "bestOf7_loop (map Some cards) ?ps None = Some r"
    "r = None \<longrightarrow> ?ps = []"
    "\<forall>b. r = Some b \<longrightarrow>
              (\<exists>kb. score b = Num kb \<and>
                 (\<exists>p \<in> set ?ps. evalFive (map Some (without (fst p) (snd p) cards)) = Some b) \<and>
                 (\<forall>p \<in> set ?ps. \<exists>h k. evalFive (map Some (without (fst p) (snd p) cards)) = Some h
                      \<and> score h = Num k \<and> k \<le> kb))"
    by auto
  from r(2) ne obtain best where best: "r = Some best" by (cases r) auto
  with r(3) obtain kb where kb: "score best = Num kb"
     "\<exists>p \<in> set ?ps. evalFive (map Some (without (fst p) (snd p) cards)) = Some best"
     "\<forall>p \<in> set ?ps. \<exists>h k. evalFive (map Some (without (fst p) (snd p) cards)) = Some h
                      \<and> score h = Num k \<and> k \<le> kb"
    by blast
  have res: "bestOf7 (map Some cards) = Some best"
    using r(1) best assms by (simp add: bestOf7_def)
  have ex: "\<exists>five \<in> set (five_subsets cards). evalFive (map Some five) = Some best"
    using kb(2) setfives by blast
  have all: "\<forall>five \<in> set (five_subsets cards).
               \<exists>h k. evalFive (map Some five) = Some h \<and> score h = Num k \<and> k \<le> kb"
  proof
    fix five assume "five \<in> set (five_subsets cards)"
    then obtain p where "p \<in> set ?ps" "five = without (fst p) (snd p) cards"
      using setfives by blast
    then show "\<exists>h k. evalFive (map Some five) = Some h \<and> score h = Num k \<and> k \<le> kb"
      using kb(3) by blast
  qed
  show ?thesis using n21 res kb(1) ex all by blast
qed

theorem bestOf7_max_witness:
  "length [Card RA Spades, Card R2 Hearts, Card R3 Diamonds, Card R4 Clubs, Card R5 Spades,
           Card R6 Spades, Card R9 Hearts] = 7 \<and>
   length (five_subsets [Card RA Spades, Card R2 Hearts, Card R3 Diamonds, Card R4 Clubs,
           Card R5 Spades, Card R6 Spades, Card R9 Hearts]) = 21 \<and>
   (\<exists>best kb. bestOf7 (map Some [Card RA Spades, Card R2 Hearts, Card R3 Diamonds, Card R4 Clubs,
           Card R5 Spades, Card R6 Spades, Card R9 Hearts]) = Some best \<and> score best = Num kb \<and>
      (\<exists>five \<in> set (five_subsets [Card RA Spades, Card R2 Hearts, Card R3 Diamonds, Card R4 Clubs,
           Card R5 Spades, Card R6 Spades, Card R9 Hearts]). evalFive (map Some five) = Some best) \<and>
      (\<forall>five \<in> set (five_subsets [Card RA Spades, Card R2 Hearts, Card R3 Diamonds, Card R4 Clubs,
           Card R5 Spades, Card R6 Spades, Card R9 Hearts]).
         \<exists>h k. evalFive (map Some five) = Some h \<and> score h = Num k \<and> k \<le> kb))"
  using bestOf7_max [of "[Card RA Spades, Card R2 Hearts, Card R3 Diamonds, Card R4 Clubs,
           Card R5 Spades, Card R6 Spades, Card R9 Hearts]"]
  by simp

section \<open>Turn order\<close>

lemma js_rem_mod: "0 < n \<Longrightarrow> js_rem x n mod n = x mod n"
proof (cases "0 \<le> x")
  case True
  assume "0 < n"
  with True show ?thesis by (simp add: js_rem_def sgn_if)
next
  case False
  assume n: "0 < n"
  from False have "js_rem x n = - ((- x) mod n)" using n by (simp add: js_rem_def sgn_if)
  then show ?thesis by (simp add: mod_minus_eq)
qed

lemma js_rem_nonneg: "0 \<le> x \<Longrightarrow> 0 < n \<Longrightarrow> js_rem x n = x mod n"
  by (simp add: js_rem_def sgn_if)

lemma js_rem_lower: "0 < n \<Longrightarrow> - n < js_rem x n"
proof -
  assume n: "0 < n"
  have a: "\<bar>x\<bar> mod n < n" "0 \<le> \<bar>x\<bar> mod n" using n by simp_all
  consider "x < 0" | "x = 0" | "0 < x" by linarith
  then show ?thesis
  proof cases
    case 1
    then have "js_rem x n = - (\<bar>x\<bar> mod n)" using n by (simp add: js_rem_def)
    then show ?thesis using a by linarith
  next
    case 2
    then show ?thesis using n by (simp add: js_rem_def)
  next
    case 3
    then have "js_rem x n = \<bar>x\<bar> mod n" using n by (simp add: js_rem_def)
    then show ?thesis using a n by linarith
  qed
qed

lemma wrap_mod: "0 < n \<Longrightarrow> wrap x n = x mod n"
proof -
  assume n: "0 < n"
  have "0 \<le> js_rem x n + n" using js_rem_lower[OF n, of x] by simp
  then have "wrap x n = (js_rem x n + n) mod n" by (simp add: wrap_def js_rem_nonneg n)
  also have "\<dots> = js_rem x n mod n" by simp
  also have "\<dots> = x mod n" by (rule js_rem_mod[OF n])
  finally show ?thesis .
qed

lemma wrap_range: "0 < n \<Longrightarrow> 0 \<le> wrap x n \<and> wrap x n < n"
  by (simp add: wrap_mod)

lemma at_Some_iff: "at xs i = Some x \<longleftrightarrow> 0 \<le> i \<and> i < int (length xs) \<and> xs ! nat i = x"
  by (auto simp: at_def)

lemma at_None_iff: "at xs i = None \<longleftrightarrow> \<not> (0 \<le> i \<and> i < int (length xs))"
  by (auto simp: at_def)

lemma findNext_loop_result:
  assumes "0 \<le> i" "i < int (length (players g))"
  shows "\<exists>r. findNext_loop g i k = Some r \<and>
           ((r = - 1 \<and> (\<forall>m < k. \<not> mustAct g (players g ! nat ((i + int m) mod int (length (players g))))))
            \<or> (0 \<le> r \<and> r < int (length (players g)) \<and> mustAct g (players g ! nat r)))"
  using assms
proof (induction k arbitrary: i)
  case 0
  then show ?case by simp
next
  case (Suc k)
  let ?n = "int (length (players g))"
  have n: "0 < ?n" using Suc.prems by linarith
  have ati: "at (players g) i = Some (players g ! nat i)" using Suc.prems by (simp add: at_def)
  show ?case
  proof (cases "mustAct g (players g ! nat i)")
    case True
    then show ?thesis using Suc.prems ati by (auto simp: mustAct_def)
  next
    case False
    let ?i' = "wrap (i + 1) ?n"
    have i': "0 \<le> ?i'" "?i' < ?n" using wrap_range[OF n] by auto
    have step: "findNext_loop g i (Suc k) = findNext_loop g ?i' k"
      using False ati by (auto simp: mustAct_def)
    from Suc.IH[OF i'] obtain r where r: "findNext_loop g ?i' k = Some r"
      "(r = - 1 \<and> (\<forall>m < k. \<not> mustAct g (players g ! nat ((?i' + int m) mod ?n))))
        \<or> (0 \<le> r \<and> r < ?n \<and> mustAct g (players g ! nat r))" by blast
    have shift: "(?i' + int m) mod ?n = (i + int (Suc m)) mod ?n" for m
      by (simp add: wrap_mod[OF n] mod_add_left_eq add.assoc)
    have "\<forall>m < Suc k. \<not> mustAct g (players g ! nat ((i + int m) mod ?n))"
      if all: "\<forall>m < k. \<not> mustAct g (players g ! nat ((?i' + int m) mod ?n))"
    proof (intro allI impI)
      fix m assume m: "m < Suc k"
      show "\<not> mustAct g (players g ! nat ((i + int m) mod ?n))"
      proof (cases m)
        case 0
        then show ?thesis using False Suc.prems by simp
      next
        case (Suc m')
        then have "m' < k" using m by simp
        with all have "\<not> mustAct g (players g ! nat ((?i' + int m') mod ?n))" by blast
        then show ?thesis unfolding shift Suc .
      qed
    qed
    then show ?thesis unfolding step using r by blast
  qed
qed

lemma residues_cover:
  fixes n i j :: int
  assumes "0 \<le> j" "j < n"
  shows "\<exists>m. m < nat n \<and> (i + int m) mod n = j"
proof -
  let ?m = "nat ((j - i) mod n)"
  have n: "0 < n" using assms by linarith
  have "0 \<le> (j - i) mod n" "(j - i) mod n < n" using n by simp_all
  then have "?m < nat n" "int ?m = (j - i) mod n" by auto
  moreover have "(i + (j - i) mod n) mod n = j mod n"
    by (simp add: mod_add_right_eq)
  ultimately show ?thesis using assms by (intro exI[of _ ?m]) simp
qed

lemma findNextToAct_mustAct:
  "\<exists>r. findNextToAct g = Some r \<and>
     (r = - 1 \<longleftrightarrow> (\<forall>p \<in> set (players g). \<not> mustAct g p)) \<and>
     (r \<noteq> - 1 \<longrightarrow> 0 \<le> r \<and> r < int (length (players g)) \<and> mustAct g (players g ! nat r))"
proof (cases "players g = []")
  case True
  then show ?thesis by (simp add: findNextToAct_def)
next
  case False
  let ?n = "int (length (players g))"
  let ?i = "wrap (currentIndex g + 1) ?n"
  have n: "0 < ?n" using False by simp
  have i: "0 \<le> ?i" "?i < ?n" using wrap_range[OF n] by auto
  from findNext_loop_result[OF i, of "length (players g)"] obtain r where
    r: "findNext_loop g ?i (length (players g)) = Some r"
    and alt: "(r = - 1 \<and> (\<forall>m < length (players g). \<not> mustAct g (players g ! nat ((?i + int m) mod ?n))))
            \<or> (0 \<le> r \<and> r < ?n \<and> mustAct g (players g ! nat r))"
    by blast
  have res: "findNextToAct g = Some r" using r by (simp add: findNextToAct_def Let_def)
  have none: "\<forall>p \<in> set (players g). \<not> mustAct g p" if "r = - 1"
  proof
    fix p assume "p \<in> set (players g)"
    then obtain j where j: "j < length (players g)" "players g ! j = p"
      by (auto simp: in_set_conv_nth)
    then have "0 \<le> int j" "int j < ?n" by simp_all
    from residues_cover[OF this, of ?i] obtain m where
      m: "m < nat ?n" "(?i + int m) mod ?n = int j" by blast
    from that alt have "\<forall>m < length (players g). \<not> mustAct g (players g ! nat ((?i + int m) mod ?n))"
      by auto
    with m have "\<not> mustAct g (players g ! nat (int j))" by (metis nat_int)
    then show "\<not> mustAct g p" using j by simp
  qed
  have some: "0 \<le> r \<and> r < ?n \<and> mustAct g (players g ! nat r)" if "r \<noteq> - 1"
    using that alt by blast
  have conv: "r = - 1" if "\<forall>p \<in> set (players g). \<not> mustAct g p"
  proof (rule ccontr)
    assume "r \<noteq> - 1"
    from some[OF this] have "players g ! nat r \<in> set (players g)" "mustAct g (players g ! nat r)"
      by auto
    with that show False by blast
  qed
  show ?thesis using res none some conv by blast
qed

text \<open>
  C8 (\<open>findNextToAct\<close> returns a valid seat when at least two seats are neither folded
  nor all-in and their street bets are not all equal to \<open>callAmount\<close>; it returns -1
  exactly when every seat that is not folded is all-in or has acted with a street bet
  matching \<open>callAmount\<close>). The source tests \<^verbatim>\<open>p.bet < this.callAmount\<close>, so a seat that
  has acted with more than the call amount in is not asked again: on \<open>overbet_table\<close>
  two seats are neither folded nor all-in, their street bets are 100 and 50 against a
  call amount of 50, and the result is -1.
\<close>

theorem findNextToAct_overbet_counterexample:
  "findNextToAct overbet_table = Some (- 1) \<and>
   map folded (players overbet_table) = [False, False] \<and>
   map allIn (players overbet_table) = [False, False] \<and>
   map bet (players overbet_table) = [100, 50] \<and>
   callAmount overbet_table = 50"
  by (simp add: overbet_table_def newGame_def seat_def findNextToAct_def wrap_def js_rem_def at_def)

text \<open>
  C8, amended: \<open>findNextToAct\<close> always returns; the result is -1 exactly when every
  seat is folded, all-in, or has acted with a street bet not below \<open>callAmount\<close>, and it
  is otherwise the index of a seat that is neither folded nor all-in and has not acted
  or has a street bet below \<open>callAmount\<close>. When no street bet exceeds \<open>callAmount\<close>,
  "not below" is "equal to", as the claim has it.
\<close>

theorem findNextToAct_result:
  "\<exists>r. findNextToAct g = Some r \<and>
     (r = - 1 \<longleftrightarrow>
        (\<forall>p \<in> set (players g).
           folded p \<or> allIn p \<or> (pid p \<in> actedThisRound g \<and> callAmount g \<le> bet p))) \<and>
     (r \<noteq> - 1 \<longrightarrow>
        (\<exists>p. at (players g) r = Some p \<and> \<not> folded p \<and> \<not> allIn p \<and>
             (pid p \<notin> actedThisRound g \<or> bet p < callAmount g))) \<and>
     ((\<forall>p \<in> set (players g). bet p \<le> callAmount g) \<longrightarrow>
        (r = - 1 \<longleftrightarrow>
           (\<forall>p \<in> set (players g).
              folded p \<or> allIn p \<or> (pid p \<in> actedThisRound g \<and> bet p = callAmount g))))"
proof -
  from findNextToAct_mustAct[of g] obtain r where r: "findNextToAct g = Some r"
    and a: "r = - 1 \<longleftrightarrow> (\<forall>p \<in> set (players g). \<not> mustAct g p)"
    and b: "r \<noteq> - 1 \<longrightarrow> 0 \<le> r \<and> r < int (length (players g)) \<and> mustAct g (players g ! nat r)"
    by blast
  have c1: "r = - 1 \<longleftrightarrow>
        (\<forall>p \<in> set (players g).
           folded p \<or> allIn p \<or> (pid p \<in> actedThisRound g \<and> callAmount g \<le> bet p))"
    unfolding a by (auto simp: mustAct_def)
  have c2: "r \<noteq> - 1 \<longrightarrow>
        (\<exists>p. at (players g) r = Some p \<and> \<not> folded p \<and> \<not> allIn p \<and>
             (pid p \<notin> actedThisRound g \<or> bet p < callAmount g))"
    using b by (auto simp: mustAct_def at_def)
  have c3: "(\<forall>p \<in> set (players g). bet p \<le> callAmount g) \<longrightarrow>
        (r = - 1 \<longleftrightarrow>
           (\<forall>p \<in> set (players g).
              folded p \<or> allIn p \<or> (pid p \<in> actedThisRound g \<and> bet p = callAmount g)))"
    unfolding c1 by (auto simp: order_antisym)
  show ?thesis using r c1 c2 c3 by blast
qed

theorem findNextToAct_result_witness:
  "list_all (\<lambda>p. bet p \<le> callAmount facing_table) (players facing_table) \<and>
   findNextToAct facing_table = Some 1 \<and>
   (\<exists>p. at (players facing_table) 1 = Some p \<and> \<not> folded p \<and> \<not> allIn p \<and>
        bet p < callAmount facing_table)"
  using findNextToAct_result [of facing_table]
  by (simp add: facing_table_def newGame_def seat_def findNextToAct_def wrap_def js_rem_def at_def)

section \<open>Results and frames of the entry points\<close>

lemma addLog_fields [simp]:
  "players (addLog g m) = players g" "pot (addLog g m) = pot g"
  "phase (addLog g m) = phase g" "community (addLog g m) = community g"
  "deck (addLog g m) = deck g" "callAmount (addLog g m) = callAmount g"
  "minRaise (addLog g m) = minRaise g" "actedThisRound (addLog g m) = actedThisRound g"
  "currentIndex (addLog g m) = currentIndex g" "dealerIndex (addLog g m) = dealerIndex g"
  "handNumber (addLog g m) = handNumber g" "BIG_BLIND (addLog g m) = BIG_BLIND g"
  "SMALL_BLIND (addLog g m) = SMALL_BLIND g" "lastAction (addLog g m) = lastAction g"
  "roundBets (addLog g m) = roundBets g" "sidePots (addLog g m) = sidePots g"
  "roomId (addLog g m) = roomId g" "defaultStack (addLog g m) = defaultStack g"
  by (simp_all add: addLog_def Let_def)

lemma setp_fields [simp]:
  "players (setp g i p) = (players g)[i := p]" "pot (setp g i p) = pot g"
  "phase (setp g i p) = phase g" "community (setp g i p) = community g"
  "deck (setp g i p) = deck g" "callAmount (setp g i p) = callAmount g"
  "minRaise (setp g i p) = minRaise g" "actedThisRound (setp g i p) = actedThisRound g"
  "currentIndex (setp g i p) = currentIndex g" "dealerIndex (setp g i p) = dealerIndex g"
  "handNumber (setp g i p) = handNumber g" "BIG_BLIND (setp g i p) = BIG_BLIND g"
  "SMALL_BLIND (setp g i p) = SMALL_BLIND g" "lastAction (setp g i p) = lastAction g"
  "roundBets (setp g i p) = roundBets g" "sidePots (setp g i p) = sidePots g"
  "roomId (setp g i p) = roomId g" "defaultStack (setp g i p) = defaultStack g"
  "log (setp g i p) = log g"
  by (simp_all add: setp_def)

lemma showdown_result: "showdown g = Some (g', r) \<Longrightarrow> \<exists>w. r = ShowdownOver w"
  by (auto simp: showdown_def Let_def split: option.splits prod.splits)

lemma nextStreet_result:
  "nextStreet g = Some (g', r) \<Longrightarrow> (\<exists>w. r = ShowdownOver w) \<or> (\<exists>ph c. r = NewStreet ph c)"
  by (auto simp: nextStreet_def Let_def bind_eq_Some_conv dest: showdown_result split: if_splits)

lemma advanceTurn_result:
  "advanceTurn g = Some (g', r) \<Longrightarrow>
     (\<exists>w. r = ShowdownOver w) \<or> (\<exists>ph c. r = NewStreet ph c) \<or> (\<exists>w. r = HandOver w) \<or> (\<exists>c. r = NextTurn c)"
  by (auto simp: advanceTurn_def Let_def bind_eq_Some_conv dest: nextStreet_result split: list.splits if_splits)

lemma advanceTurn_no_error: "advanceTurn g \<noteq> Some (g', Err e)"
  using advanceTurn_result[of g g' "Err e"] by auto

lemma startHand_error:
  "startHand g st rand = Some (g', Err e) \<Longrightarrow> g' = g \<and> e = NotEnoughPlayers"
  by (auto simp: startHand_def Let_def bind_eq_Some_conv split: if_splits)

lemma addPlayer_error:
  "addPlayer g ident nm stack emj = (g', Err e) \<Longrightarrow> g' = g \<and> (e = AlreadySeated \<or> e = TableFull)"
  by (auto simp: addPlayer_def Let_def split: option.splits if_splits)

lemma actionSwitch_error:
  "actionSwitch g ci action amount = Inl e \<Longrightarrow>
     e = MustCallOrFold \<or> e = RaiseTooLow \<or> e = InsufficientChips \<or> e = UnknownAction"
  by (auto simp: actionSwitch_def Let_def split: if_splits)

lemma applyAction_error:
  "applyAction g playerId action amount = Some (g', Err e) \<Longrightarrow>
     g' = g \<and> (e = NotYourTurn \<or> e = MustCallOrFold \<or> e = RaiseTooLow
                \<or> e = InsufficientChips \<or> e = UnknownAction)"
  by (auto simp: applyAction_def advanceTurn_no_error dest: actionSwitch_error
           split: option.splits if_splits sum.splits)

lemma negative_raise:
  assumes "amount < 0" "0 \<le> callAmount g"
  shows "applyAction g playerId ''raise'' amount =
           Some (g, Err (if \<exists>p. at (players g) (currentIndex g) = Some p \<and> pid p = playerId
                         then RaiseTooLow else NotYourTurn))"
  using assms by (auto simp: applyAction_def actionSwitch_def Let_def split: option.splits)

lemma defined_map_Some: "list_all (\<lambda>c. c \<noteq> None) cs \<Longrightarrow> \<exists>xs. cs = map Some xs"
proof (induction cs)
  case Nil
  then show ?case by simp
next
  case (Cons c cs)
  then obtain xs x where "cs = map Some xs" "c = Some x" by auto
  then have "c # cs = map Some (x # xs)" by simp
  then show ?case by (rule exI)
qed

lemma bestOf7_loop_defined:
  "bestOf7_loop (map Some xs) ps best \<noteq> None"
  by (induction ps arbitrary: best) (auto simp: without_map evalFive_defined Let_def)

lemma bestOf7_defined: "bestOf7 (map Some xs) \<noteq> None"
proof -
  have "evalFive (take 5 (map Some xs)) \<noteq> None"
    by (simp add: take_map evalFive_defined)
  then show ?thesis
    using bestOf7_loop_defined[of xs "index_pairs (length (map Some xs))" None]
    by (auto simp: bestOf7_def split: option.splits)
qed

lemma showdown_loop_frame:
  "showdown_loop g is rs b = Some (g2, rs', b') \<Longrightarrow> g2 = g\<lparr>log := log g2\<rparr>"
proof (induction "is" arbitrary: g rs b)
  case Nil
  then show ?case by simp
next
  case (Cons i "is")
  from Cons.prems obtain m rs2 b2 where
    "showdown_loop (addLog g m) is rs2 b2 = Some (g2, rs', b')"
    by (auto simp: Let_def split: option.splits)
  from Cons.IH[OF this] have "g2 = (addLog g m)\<lparr>log := log g2\<rparr>" .
  then show ?case by (simp add: addLog_def Let_def)
qed

lemma showdown_loop_defined:
  assumes "list_all (\<lambda>p. list_all (\<lambda>c. c \<noteq> None) (hand p)) (players g)"
      and "list_all (\<lambda>c. c \<noteq> None) (community g)"
      and "\<forall>i \<in> set is. i < length (players g)"
  shows "showdown_loop g is rs b \<noteq> None"
  using assms
proof (induction "is" arbitrary: g rs b)
  case Nil
  then show ?case by simp
next
  case (Cons i "is")
  let ?p = "players g ! i"
  have "?p \<in> set (players g)" using Cons.prems(3) by simp
  then have hd: "list_all (\<lambda>c. c \<noteq> None) (hand ?p)" using Cons.prems(1) by (simp add: list_all_iff)
  then have "list_all (\<lambda>c. c \<noteq> None) (hand ?p @ community g)" using Cons.prems(2) by simp
  then obtain xs where xs: "hand ?p @ community g = map Some xs" using defined_map_Some by blast
  obtain h where h: "bestOf7 (hand ?p @ community g) = Some h"
    using bestOf7_defined[of xs] xs by auto
  obtain cs where cs: "hand ?p = map Some cs" using hd defined_map_Some by blast
  have th: "those (hand ?p) = Some cs" by (simp add: cs those_map_Some)
  have "showdown_loop (addLog g (MShows (pname ?p) cs (hname h))) is (rs @ [(i, h)])
          (if js_gt (score h) b then score h else b) \<noteq> None"
    by (rule Cons.IH) (use Cons.prems in auto)
  then show ?case using h th by (simp add: Let_def)
qed

lemma inHand_lt: "i \<in> set (inHandPlayers g) \<Longrightarrow> i < length (players g)"
  by (simp add: inHandPlayers_def)

lemma inHandPlayers_log [simp]: "inHandPlayers (addLog g m) = inHandPlayers g"
  by (simp add: inHandPlayers_def)

lemma showdown_defined: "cards_defined g \<Longrightarrow> showdown g \<noteq> None"
proof -
  assume cd: "cards_defined g"
  let ?g1 = "addLog (g\<lparr>phase := Showdown\<rparr>) (MStreet ''SHOWDOWN'')"
  have "showdown_loop ?g1 (inHandPlayers ?g1) [] (Num (- 1)) \<noteq> None"
    by (rule showdown_loop_defined) (use cd in \<open>auto simp: cards_defined_def inHandPlayers_def\<close>)
  then show ?thesis by (auto simp: showdown_def Let_def split: prod.splits)
qed

lemma nextActive_loop_Some:
  assumes "0 \<le> i" "i < int (length ps)"
  shows "\<exists>r. nextActive_loop ps step i k = Some r \<and> 0 \<le> r \<and> r < int (length ps)"
  using assms
proof (induction k arbitrary: i)
  case 0
  then show ?case by (simp add: at_def)
next
  case (Suc k)
  have n: "0 < int (length ps)" using Suc.prems by linarith
  have "0 \<le> wrap (i + step) (int (length ps))" "wrap (i + step) (int (length ps)) < int (length ps)"
    using wrap_range[OF n] by auto
  from Suc.IH[OF this] Suc.prems show ?case by (auto simp: at_def)
qed

lemma nextActiveIndex_Some:
  assumes "players g \<noteq> []"
  shows "\<exists>r. nextActiveIndex g from step = Some r \<and> 0 \<le> r \<and> r < int (length (players g))"
proof -
  have n: "0 < int (length (players g))" using assms by simp
  have "0 \<le> wrap (from + step) (int (length (players g)))"
       "wrap (from + step) (int (length (players g))) < int (length (players g))"
    using wrap_range[OF n] by auto
  from nextActive_loop_Some[OF this] show ?thesis by (simp add: nextActiveIndex_def Let_def)
qed

lemma dealCommunity_players [simp]: "players (dealCommunity k g) = players g"
  by (induction k arbitrary: g) auto

lemma dealCommunity_dealerIndex [simp]: "dealerIndex (dealCommunity k g) = dealerIndex g"
  by (induction k arbitrary: g) auto

lemma nextStreet_not_river:
  assumes "phase g \<noteq> River" "players g \<noteq> []"
  shows "nextStreet g \<noteq> None"
proof -
  let ?g1 = "g\<lparr>players := map (\<lambda>p. p\<lparr>bet := 0\<rparr>) (players g), callAmount := 0,
                 minRaise := Some (BIG_BLIND g), actedThisRound := {}, roundBets := Map.empty\<rparr>"
  let ?g2 = "(if phase ?g1 = Preflop then addLog ((dealCommunity 3 ?g1)\<lparr>phase := Flop\<rparr>) (MStreet ''FLOP'')
           else if phase ?g1 = Flop then addLog ((dealCommunity 1 ?g1)\<lparr>phase := Turn\<rparr>) (MStreet ''TURN'')
           else if phase ?g1 = Turn then addLog ((dealCommunity 1 ?g1)\<lparr>phase := River\<rparr>) (MStreet ''RIVER'')
           else ?g1)"
  have "players ?g2 \<noteq> []" using assms(2) by simp
  from nextActiveIndex_Some[OF this, of "dealerIndex ?g2" 1] obtain r where
    "nextActiveIndex ?g2 (dealerIndex ?g2) 1 = Some r" by blast
  then show ?thesis using assms(1) by (simp add: nextStreet_def Let_def)
qed

lemma pay_loop_frame:
  "pay_loop g ws s = g\<lparr>players := players (pay_loop g ws s), log := log (pay_loop g ws s)\<rparr>"
proof (induction ws arbitrary: g)
  case Nil
  then show ?case by simp
next
  case (Cons w ws)
  obtain i h where w: "w = (i, h)" by (cases w)
  let ?g' = "addLog (setp g i ((players g ! i)\<lparr>chips := chips (players g ! i) + s\<rparr>))
               (MWins (pname (players g ! i)) s)"
  have "pay_loop g (w # ws) s = pay_loop ?g' ws s" by (simp add: w Let_def)
  moreover have "pay_loop ?g' ws s = ?g'\<lparr>players := players (pay_loop ?g' ws s), log := log (pay_loop ?g' ws s)\<rparr>"
    by (rule Cons.IH)
  ultimately show ?case by (simp add: addLog_def setp_def Let_def)
qed

lemma showdown_frame:
  assumes "showdown g = Some (g', r)"
  shows "g' = g\<lparr>players := players g', log := log g', pot := 0, phase := Waiting\<rparr>"
proof -
  let ?g1 = "addLog (g\<lparr>phase := Showdown\<rparr>) (MStreet ''SHOWDOWN'')"
  from assms obtain g2 rs b where l: "showdown_loop ?g1 (inHandPlayers ?g1) [] (Num (- 1)) = Some (g2, rs, b)"
    by (auto simp: showdown_def Let_def split: option.splits)
  let ?ws = "filter (\<lambda>(i, h). js_eq (score h) b) rs"
  let ?g3 = "pay_loop g2 ?ws (pot g2 div int (length ?ws))"
  have g': "g' = ?g3\<lparr>pot := 0, phase := Waiting\<rparr>"
    using assms l by (simp add: showdown_def Let_def)
  have g2: "g2 = ?g1\<lparr>log := log g2\<rparr>" by (rule showdown_loop_frame[OF l])
  define P where "P = players ?g3"
  define L where "L = log ?g3"
  define L2 where "L2 = log g2"
  have "?g3 = g2\<lparr>players := P, log := L\<rparr>"
    unfolding P_def L_def by (rule pay_loop_frame)
  moreover have "g2 = ?g1\<lparr>log := L2\<rparr>" using g2 by (simp add: L2_def)
  ultimately have "?g3 = ?g1\<lparr>log := L2\<rparr>\<lparr>players := P, log := L\<rparr>" by simp
  then have "g' = g\<lparr>players := P, log := L, pot := 0, phase := Waiting\<rparr>"
    unfolding g' by (simp add: addLog_def Let_def)
  moreover from this have "players g' = P" "log g' = L" by simp_all
  ultimately show ?thesis by simp
qed

lemma showdown_minRaise:
  assumes "showdown g = Some (g', r)"
  shows "minRaise g' = minRaise g"
  using arg_cong[OF showdown_frame[OF assms], of minRaise] by simp

lemma dealCommunity_frame:
  "dealCommunity k g = g\<lparr>deck := deck (dealCommunity k g), community := community (dealCommunity k g)\<rparr>"
proof (induction k arbitrary: g)
  case 0
  then show ?case by simp
next
  case (Suc k)
  let ?g' = "g\<lparr>deck := snd (pop (deck g)), community := community g @ [fst (pop (deck g))]\<rparr>"
  define D where "D = deck (dealCommunity k ?g')"
  define C where "C = community (dealCommunity k ?g')"
  have "dealCommunity k ?g' = ?g'\<lparr>deck := D, community := C\<rparr>"
    unfolding D_def C_def by (rule Suc.IH)
  then have "dealCommunity (Suc k) g = g\<lparr>deck := D, community := C\<rparr>" by simp
  moreover from this have "deck (dealCommunity (Suc k) g) = D" "community (dealCommunity (Suc k) g) = C"
    by simp_all
  ultimately show ?case by simp
qed

lemma dealCommunity_fields [simp]:
  "minRaise (dealCommunity k g) = minRaise g" "pot (dealCommunity k g) = pot g"
  "callAmount (dealCommunity k g) = callAmount g" "phase (dealCommunity k g) = phase g"
  "actedThisRound (dealCommunity k g) = actedThisRound g" "BIG_BLIND (dealCommunity k g) = BIG_BLIND g"
  "currentIndex (dealCommunity k g) = currentIndex g" "log (dealCommunity k g) = log g"
  "handNumber (dealCommunity k g) = handNumber g" "lastAction (dealCommunity k g) = lastAction g"
  using arg_cong[OF dealCommunity_frame[of k g], of minRaise]
        arg_cong[OF dealCommunity_frame[of k g], of pot]
        arg_cong[OF dealCommunity_frame[of k g], of callAmount]
        arg_cong[OF dealCommunity_frame[of k g], of phase]
        arg_cong[OF dealCommunity_frame[of k g], of actedThisRound]
        arg_cong[OF dealCommunity_frame[of k g], of BIG_BLIND]
        arg_cong[OF dealCommunity_frame[of k g], of currentIndex]
        arg_cong[OF dealCommunity_frame[of k g], of log]
        arg_cong[OF dealCommunity_frame[of k g], of handNumber]
        arg_cong[OF dealCommunity_frame[of k g], of lastAction]
  by simp_all

lemma nextStreet_minRaise:
  "nextStreet g = Some (g', r) \<Longrightarrow> minRaise g' = Some (BIG_BLIND g)"
  by (auto simp: nextStreet_def Let_def bind_eq_Some_conv dest!: showdown_minRaise split: if_splits)

lemma advanceTurn_minRaise:
  assumes "advanceTurn g = Some (g', r)"
  shows "(minRaise g' = minRaise g \<and> ((\<exists>w. r = HandOver w) \<or> (\<exists>c. r = NextTurn c))) \<or>
         (minRaise g' = Some (BIG_BLIND g) \<and> ((\<exists>ph c. r = NewStreet ph c) \<or> (\<exists>w. r = ShowdownOver w)))"
proof (cases "\<exists>w. inHandPlayers g = [w]")
  case True
  then show ?thesis using assms by (auto simp: advanceTurn_def Let_def)
next
  case False
  then have adv: "advanceTurn g = do {
            next \<leftarrow> findNextToAct g;
            if next = - 1 then nextStreet g
            else do {
              p \<leftarrow> at (players g) next;
              Some (g\<lparr>currentIndex := next\<rparr>, NextTurn (pid p))
            }
          }"
    by (auto simp: advanceTurn_def split: list.splits)
  from assms obtain nx where nx: "findNextToAct g = Some nx"
    unfolding adv by (auto simp: bind_eq_Some_conv)
  show ?thesis
  proof (cases "nx = - 1")
    case True
    then have ns: "nextStreet g = Some (g', r)" using assms nx unfolding adv by simp
    from nextStreet_minRaise[OF ns] nextStreet_result[OF ns] show ?thesis by blast
  next
    case False
    then show ?thesis using assms nx unfolding adv by (auto simp: bind_eq_Some_conv)
  qed
qed

lemma cards_defined_bets:
  "cards_defined (g\<lparr>players := map (\<lambda>p. p\<lparr>bet := 0\<rparr>) (players g), callAmount := c,
                 minRaise := m, actedThisRound := a, roundBets := rb\<rparr>) = cards_defined g"
  by (simp add: cards_defined_def list_all_iff)

lemma nextStreet_defined:
  assumes "players g \<noteq> []" "phase g \<noteq> River \<or> cards_defined g"
  shows "nextStreet g \<noteq> None"
proof (cases "phase g = River")
  case True
  with assms(2) have "cards_defined g" by simp
  then have "showdown (g\<lparr>players := map (\<lambda>p. p\<lparr>bet := 0\<rparr>) (players g), callAmount := 0,
                 minRaise := Some (BIG_BLIND g), actedThisRound := {}, roundBets := Map.empty\<rparr>) \<noteq> None"
    by (intro showdown_defined) (simp only: cards_defined_bets)
  then show ?thesis using True by (simp add: nextStreet_def Let_def)
next
  case False
  then show ?thesis using nextStreet_not_river assms(1) by blast
qed

lemma advanceTurn_defined:
  assumes "players g \<noteq> []" "phase g \<noteq> River \<or> cards_defined g"
  shows "advanceTurn g \<noteq> None"
proof (cases "\<exists>w. inHandPlayers g = [w]")
  case True
  then show ?thesis by (auto simp: advanceTurn_def Let_def)
next
  case False
  then have adv: "advanceTurn g = do {
            next \<leftarrow> findNextToAct g;
            if next = - 1 then nextStreet g
            else do {
              p \<leftarrow> at (players g) next;
              Some (g\<lparr>currentIndex := next\<rparr>, NextTurn (pid p))
            }
          }"
    by (auto simp: advanceTurn_def split: list.splits)
  from findNextToAct_mustAct[of g] obtain nx where nx: "findNextToAct g = Some nx"
    and v: "nx \<noteq> - 1 \<longrightarrow> 0 \<le> nx \<and> nx < int (length (players g))" by blast
  show ?thesis
  proof (cases "nx = - 1")
    case True
    then show ?thesis unfolding adv using nx nextStreet_defined[OF assms] by simp
  next
    case False
    with v have "at (players g) nx \<noteq> None" by (simp add: at_def)
    then show ?thesis unfolding adv using nx False by auto
  qed
qed

section \<open>Raising\<close>

lemma cards_defined_cong:
  assumes "map hand (players g1) = map hand (players g)" "community g1 = community g"
  shows "cards_defined g1 = cards_defined g"
proof -
  have "list_all (\<lambda>p. list_all (\<lambda>c. c \<noteq> None) (hand p)) ps
      = list_all (list_all (\<lambda>c. c \<noteq> None)) (map hand ps)" for ps :: "player list"
    by (simp add: list_all_iff)
  then show ?thesis using assms by (simp add: cards_defined_def)
qed

lemma map_hand_update:
  "i < length ps \<Longrightarrow> hand q = hand (ps ! i) \<Longrightarrow> map hand (ps[i := q]) = map hand ps"
  by (simp add: map_update list_update_same_conv)

lemma actionSwitch_frame:
  assumes "actionSwitch g ci action amount = Inr g1" "ci < length (players g)"
  shows "map hand (players g1) = map hand (players g) \<and> community g1 = community g \<and>
         phase g1 = phase g \<and> BIG_BLIND g1 = BIG_BLIND g \<and> deck g1 = deck g \<and>
         length (players g1) = length (players g) \<and> dealerIndex g1 = dealerIndex g \<and>
         currentIndex g1 = currentIndex g"
  using assms
  by (auto simp: actionSwitch_def Let_def map_hand_update split: if_splits)

lemma raise_step:
  assumes "at (players g) (currentIndex g) = Some p" "callAmount g < amount" "amount \<le> chips p + bet p"
  shows "\<exists>g1. actionSwitch g (nat (currentIndex g)) ''raise'' amount = Inr g1 \<and>
           minRaise g1 = Some 0 \<and> callAmount g1 = amount"
proof -
  from assms(1) have p: "players g ! nat (currentIndex g) = p"
    by (auto simp: at_def split: if_splits)
  show ?thesis
    using assms(2,3) p by (auto simp: actionSwitch_def Let_def)
qed

lemma raise_switch_minRaise:
  "actionSwitch (g\<lparr>minRaise := m\<rparr>) ci ''raise'' amount = Inr g1
     \<Longrightarrow> actionSwitch g ci ''raise'' amount = Inr g1"
  by (auto simp: actionSwitch_def Let_def addLog_def setp_def split: if_splits)

lemma raise_switch_eq:
  assumes "callAmount g < amount" "amount \<le> chips (players g ! ci) + bet (players g ! ci)"
  shows "actionSwitch (g\<lparr>minRaise := m\<rparr>) ci ''raise'' amount = actionSwitch g ci ''raise'' amount"
  using assms by (simp add: actionSwitch_def Let_def addLog_def setp_def)

text \<open>
  C10 (the stored \<open>minRaise\<close> never constrains a raise, and a successful raise sets it
  to 0). For the player whose turn it is and an amount above \<open>callAmount\<close> that the
  player can cover: the \<^verbatim>\<open>raise\<close> case ends with \<open>minRaise = 0\<close> and
  \<open>callAmount = amount\<close>; the whole call gives the same state and result whatever
  \<open>minRaise\<close> held before; it never returns an error, and it returns (no exception)
  unless a showdown meets an \<^verbatim>\<open>undefined\<close> card. In the state the call returns
  \<open>minRaise\<close> is still 0, except when the raise closed the street, where \<^verbatim>\<open>nextStreet\<close>
  has stored the big blind, which no raise reads either.
\<close>

theorem raise_ignores_minRaise:
  assumes turn: "at (players g) (currentIndex g) = Some p" "pid p = playerId"
      and amt: "callAmount g < amount" "amount \<le> chips p + bet p"
  shows "(\<exists>g1. actionSwitch g (nat (currentIndex g)) ''raise'' amount = Inr g1 \<and>
               minRaise g1 = Some 0 \<and> callAmount g1 = amount) \<and>
         (\<forall>m. applyAction (g\<lparr>minRaise := m\<rparr>) playerId ''raise'' amount
               = applyAction g playerId ''raise'' amount) \<and>
         (\<forall>g' r. applyAction g playerId ''raise'' amount = Some (g', r) \<longrightarrow>
            (\<forall>e. r \<noteq> Err e) \<and>
            (minRaise g' = Some 0 \<or>
             (minRaise g' = Some (BIG_BLIND g) \<and>
              ((\<exists>ph c. r = NewStreet ph c) \<or> (\<exists>w. r = ShowdownOver w))))) \<and>
         (phase g \<noteq> River \<or> cards_defined g \<longrightarrow>
            (\<exists>g' r. applyAction g playerId ''raise'' amount = Some (g', r)))"
proof -
  let ?ci = "nat (currentIndex g)"
  from turn(1) have p: "players g ! ?ci = p" and ci: "?ci < length (players g)"
    by (auto simp: at_def split: if_splits)
  from raise_step[OF turn(1) amt] obtain g1 where
    g1: "actionSwitch g ?ci ''raise'' amount = Inr g1" "minRaise g1 = Some 0" "callAmount g1 = amount"
    by blast
  let ?g2 = "g1\<lparr>actedThisRound := insert playerId (actedThisRound g1),
                lastAction := Some (playerId, ''raise'', amount)\<rparr>"
  have app: "applyAction g playerId ''raise'' amount = advanceTurn ?g2"
    using turn g1(1) by (simp add: applyAction_def)
  note fr = actionSwitch_frame[OF g1(1) ci]
  have A: "\<exists>g1. actionSwitch g ?ci ''raise'' amount = Inr g1 \<and> minRaise g1 = Some 0 \<and> callAmount g1 = amount"
    using g1 by blast
  have B: "applyAction (g\<lparr>minRaise := m\<rparr>) playerId ''raise'' amount
               = applyAction g playerId ''raise'' amount" for m
  proof -
    have "actionSwitch (g\<lparr>minRaise := m\<rparr>) ?ci ''raise'' amount = Inr g1"
      using raise_switch_eq[of g amount ?ci m] amt p g1(1) by simp
    then have "applyAction (g\<lparr>minRaise := m\<rparr>) playerId ''raise'' amount = advanceTurn ?g2"
      using turn by (simp add: applyAction_def)
    then show ?thesis using app by simp
  qed
  have C: "(\<forall>e. r \<noteq> Err e) \<and>
            (minRaise g' = Some 0 \<or>
             (minRaise g' = Some (BIG_BLIND g) \<and>
              ((\<exists>ph c. r = NewStreet ph c) \<or> (\<exists>w. r = ShowdownOver w))))"
    if "applyAction g playerId ''raise'' amount = Some (g', r)" for g' r
  proof -
    from that have adv: "advanceTurn ?g2 = Some (g', r)" using app by simp
    have ne: "\<forall>e. r \<noteq> Err e" using adv advanceTurn_no_error by blast
    have "minRaise ?g2 = Some 0" "BIG_BLIND ?g2 = BIG_BLIND g" using g1(2) fr by simp_all
    with advanceTurn_minRaise[OF adv] ne show ?thesis by auto
  qed
  have D: "\<exists>g' r. applyAction g playerId ''raise'' amount = Some (g', r)"
    if "phase g \<noteq> River \<or> cards_defined g"
  proof -
    have "players ?g2 \<noteq> []" using fr ci by auto
    moreover have "cards_defined ?g2 = cards_defined g"
      by (rule cards_defined_cong) (use fr in simp_all)
    moreover have "phase ?g2 = phase g" using fr by simp
    ultimately have "advanceTurn ?g2 \<noteq> None" using that by (intro advanceTurn_defined) auto
    then show ?thesis unfolding app by auto
  qed
  show ?thesis using A B C D by blast
qed

theorem raise_ignores_minRaise_witness:
  "at (players facing_table) (currentIndex facing_table) = Some (seat ''a'' 1450 50 hole_a) \<and>
   pid (seat ''a'' 1450 50 hole_a) = ''a'' \<and>
   callAmount facing_table < 100 \<and>
   100 \<le> chips (seat ''a'' 1450 50 hole_a) + bet (seat ''a'' 1450 50 hole_a) \<and>
   (\<exists>g1. actionSwitch facing_table (nat (currentIndex facing_table)) ''raise'' 100 = Inr g1 \<and>
         minRaise g1 = Some 0 \<and> callAmount g1 = 100) \<and>
   (\<exists>g'. applyAction facing_table ''a'' ''raise'' 100 = Some (g', NextTurn ''b'') \<and>
         minRaise g' = Some 0) \<and>
   applyAction (facing_table\<lparr>minRaise := Some 400\<rparr>) ''a'' ''raise'' 100
     = applyAction facing_table ''a'' ''raise'' 100"
proof -
  have h: "at (players facing_table) (currentIndex facing_table) = Some (seat ''a'' 1450 50 hole_a)"
    "pid (seat ''a'' 1450 50 hole_a) = ''a''" "callAmount facing_table < 100"
    "100 \<le> chips (seat ''a'' 1450 50 hole_a) + bet (seat ''a'' 1450 50 hole_a)"
    by (simp_all add: facing_table_def newGame_def seat_def at_def)
  note t = raise_ignores_minRaise[OF h]
  have ev: "\<exists>g'. applyAction facing_table ''a'' ''raise'' 100 = Some (g', NextTurn ''b'')"
    by (simp add: facing_table_def newGame_def seat_def at_def applyAction_def actionSwitch_def
          Let_def advanceTurn_def inHandPlayers_def hole_a_def hole_b_def findNextToAct_def
          wrap_def js_rem_def addLog_def setp_def)
  then obtain g' where g': "applyAction facing_table ''a'' ''raise'' 100 = Some (g', NextTurn ''b'')"
    by blast
  with t have "minRaise g' = Some 0" by auto
  with g' t h show ?thesis by blast
qed

section \<open>The last player in the hand\<close>

lemma inHandPlayers_cong:
  "players g2 = players g1 \<Longrightarrow> inHandPlayers g2 = inHandPlayers g1"
  by (simp add: inHandPlayers_def)

lemma inHand_props:
  "w \<in> set (inHandPlayers g) \<Longrightarrow> w < length (players g) \<and> \<not> folded (players g ! w)
     \<and> length (hand (players g ! w)) = 2"
  by (simp add: inHandPlayers_def)

lemma advanceTurn_single:
  assumes "inHandPlayers g = [w]"
  shows "advanceTurn g =
     Some ((addLog (setp g w ((players g ! w)\<lparr>chips := chips (players g ! w) + pot g\<rparr>))
                (MWinsFolded (pname (players g ! w)) (pot g)))\<lparr>pot := 0, phase := Waiting\<rparr>,
           HandOver [(pid (players g ! w), pname (players g ! w), 0)])"
  using assms by (simp add: advanceTurn_def Let_def)

text \<open>
  C6 (after a successful action that leaves exactly one seat that is not folded and
  holds a hand, the hand ends at once with \<^verbatim>\<open>hand_over\<close> and no showdown; that seat's
  chips grow by the whole pot, the pot is 0 and the phase is \<open>waiting\<close>). \<open>g1\<close> is the
  state when the \<^verbatim>\<open>switch\<close> of \<open>applyAction\<close> is done, so its pot holds what the action
  itself committed; every other seat, the community cards and the deck are untouched.
  For a fold the pot and the winner's chips are those before the call. The amount the
  result reports is read after the pot is cleared, so it is 0.
\<close>

theorem last_player_wins:
  assumes turn: "at (players g) (currentIndex g) = Some p" "pid p = playerId"
      and act: "actionSwitch g (nat (currentIndex g)) action amount = Inr g1"
      and one: "inHandPlayers g1 = [w]"
  shows "\<exists>g'. applyAction g playerId action amount
                = Some (g', HandOver [(pid (players g1 ! w), pname (players g1 ! w), 0)]) \<and>
           pot g' = 0 \<and> phase g' = Waiting \<and>
           chips (players g' ! w) = chips (players g1 ! w) + pot g1 \<and>
           length (players g') = length (players g1) \<and>
           (\<forall>i < length (players g1). i \<noteq> w \<longrightarrow> players g' ! i = players g1 ! i) \<and>
           community g' = community g \<and> deck g' = deck g \<and>
           (action = ''fold'' \<longrightarrow> chips (players g' ! w) = chips (players g ! w) + pot g)"
proof -
  let ?ci = "nat (currentIndex g)"
  let ?g2 = "g1\<lparr>actedThisRound := insert playerId (actedThisRound g1),
                lastAction := Some (playerId, action, amount)\<rparr>"
  from turn(1) have p: "players g ! ?ci = p" and ci: "?ci < length (players g)"
    by (auto simp: at_def split: if_splits)
  note fr = actionSwitch_frame[OF act ci]
  have app: "applyAction g playerId action amount = advanceTurn ?g2"
    using turn act by (simp add: applyAction_def)
  have one2: "inHandPlayers ?g2 = [w]" using one by (simp add: inHandPlayers_def)
  let ?g' = "(addLog (setp ?g2 w ((players ?g2 ! w)\<lparr>chips := chips (players ?g2 ! w) + pot ?g2\<rparr>))
                (MWinsFolded (pname (players ?g2 ! w)) (pot ?g2)))\<lparr>pot := 0, phase := Waiting\<rparr>"
  have res: "applyAction g playerId action amount
        = Some (?g', HandOver [(pid (players g1 ! w), pname (players g1 ! w), 0)])"
    unfolding app advanceTurn_single[OF one2] by simp
  have w: "w < length (players g1)" "\<not> folded (players g1 ! w)"
    using inHand_props[of w g1] one by simp_all
  have fold: "chips (players g1 ! w) = chips (players g ! w) \<and> pot g1 = pot g" if "action = ''fold''"
  proof -
    from that act have g1: "g1 = addLog (setp g ?ci (p\<lparr>folded := True\<rparr>)) (MFolds (pname p))"
      using p by (simp add: actionSwitch_def Let_def)
    have "w \<noteq> ?ci" using w(2) ci unfolding g1 by auto
    then show ?thesis unfolding g1 by simp
  qed
  have "pot ?g' = 0" "phase ?g' = Waiting" "length (players ?g') = length (players g1)"
    "community ?g' = community g" "deck ?g' = deck g"
    using fr by simp_all
  moreover have "chips (players ?g' ! w) = chips (players g1 ! w) + pot g1" using w(1) by simp
  moreover have "\<forall>i < length (players g1). i \<noteq> w \<longrightarrow> players ?g' ! i = players g1 ! i" by simp
  moreover have "action = ''fold'' \<longrightarrow> chips (players ?g' ! w) = chips (players g ! w) + pot g"
    using fold w(1) by simp
  ultimately show ?thesis using res by blast
qed

theorem last_player_wins_witness:
  "at (players blinds_table) (currentIndex blinds_table) = Some (seat ''b'' 1475 25 hole_b) \<and>
   pid (seat ''b'' 1475 25 hole_b) = ''b'' \<and>
   (\<exists>g1. actionSwitch blinds_table (nat (currentIndex blinds_table)) ''fold'' 0 = Inr g1 \<and>
      inHandPlayers g1 = [0] \<and>
      (\<exists>g'. applyAction blinds_table ''b'' ''fold'' 0 = Some (g', HandOver [(''a'', ''a'', 0)]) \<and>
         pot g' = 0 \<and> phase g' = Waiting \<and> chips (players g' ! 0) = 1525 \<and>
         players g' ! 1 = players g1 ! 1))"
proof -
  have h: "at (players blinds_table) (currentIndex blinds_table) = Some (seat ''b'' 1475 25 hole_b)"
    "pid (seat ''b'' 1475 25 hole_b) = ''b''"
    by (simp_all add: blinds_table_def newGame_def seat_def at_def)
  obtain g1 where g1: "actionSwitch blinds_table (nat (currentIndex blinds_table)) ''fold'' 0 = Inr g1"
    by (simp add: actionSwitch_def Let_def)
  then have g1': "g1 = addLog (setp blinds_table 1 ((seat ''b'' 1475 25 hole_b)\<lparr>folded := True\<rparr>)) (MFolds ''b'')"
    by (simp add: actionSwitch_def Let_def blinds_table_def newGame_def seat_def setp_def)
  have one: "inHandPlayers g1 = [0]"
    unfolding g1' by (simp add: inHandPlayers_def blinds_table_def newGame_def seat_def hole_a_def hole_b_def)
  have v: "pid (players g1 ! 0) = ''a''" "pname (players g1 ! 0) = ''a''"
    "chips (players g1 ! 0) + pot g1 = 1525" "1 < length (players g1)"
    unfolding g1' by (simp_all add: blinds_table_def newGame_def seat_def)
  from last_player_wins[OF h g1 one] v h g1 one show ?thesis by auto
qed

section \<open>Showdown\<close>

lemma category_nonneg: "0 \<le> fst (category cs)"
  by (simp add: category_def)

lemma nonneg_sum:
  fixes c t :: int
  assumes "0 \<le> c" "0 \<le> t"
  shows "0 \<le> c * 10000000000 + t"
  using assms by simp

lemma scoreOf_nonneg:
  assumes "cs \<noteq> []"
  shows "\<exists>k. scoreOf cs = Num k \<and> 0 \<le> k"
proof -
  from scoreOf_bounds[OF assms] obtain t where
    t: "scoreOf cs = Num (fst (category cs) * 10000000000 + t)" and t0: "0 \<le> t"
    by (elim exE conjE)
  have "0 \<le> fst (category cs) * 10000000000 + t"
    by (rule nonneg_sum[OF category_nonneg t0])
  with t show ?thesis by (intro exI conjI)
qed

lemma those_Some_map: "those xs = Some ys \<Longrightarrow> xs = map Some ys"
  by (induction xs arbitrary: ys) (auto split: option.splits)

lemma evalFive_score:
  assumes "evalFive cs = Some h" "cs \<noteq> []"
  shows "\<exists>k. score h = Num k \<and> 0 \<le> k"
proof -
  from assms(1) obtain xs where xs: "those cs = Some xs" and h: "score h = scoreOf xs"
    by (auto simp: evalFive_def split: option.splits)
  from those_Some_map[OF xs] assms(2) have "xs \<noteq> []" by auto
  from scoreOf_nonneg[OF this] h show ?thesis by simp
qed

lemma bestOf7_loop_origin:
  "bestOf7_loop cs ps best = Some (Some b) \<Longrightarrow>
     best = Some b \<or> (\<exists>five. length five = 5 \<and> evalFive five = Some b)"
proof (induction ps arbitrary: best)
  case Nil
  then show ?case by simp
next
  case (Cons p ps)
  obtain i j where p: "p = (i, j)" by (cases p)
  show ?case
  proof (cases "length (without i j cs) = 5")
    case False
    then show ?thesis using Cons p by simp
  next
    case True
    from Cons.prems True p obtain h where h: "evalFive (without i j cs) = Some h"
      and l: "bestOf7_loop cs ps (case best of None \<Rightarrow> Some h
                   | Some b0 \<Rightarrow> if js_gt (score h) (score b0) then Some h else Some b0) = Some (Some b)"
      by (auto simp: Let_def split: option.splits)
    from Cons.IH[OF l] show ?thesis using h True
      by (auto split: option.splits if_splits)
  qed
qed

lemma bestOf7_score:
  assumes "bestOf7 cs = Some h" "cs \<noteq> []"
  shows "\<exists>k. score h = Num k \<and> 0 \<le> k"
proof (cases "bestOf7_loop cs (index_pairs (length cs)) None")
  case None
  then show ?thesis using assms by (simp add: bestOf7_def)
next
  case (Some r)
  show ?thesis
  proof (cases r)
    case None
    with Some assms(1) have "evalFive (take 5 cs) = Some h" by (simp add: bestOf7_def)
    moreover have "take 5 cs \<noteq> []" using assms(2) by (cases cs) auto
    ultimately show ?thesis by (rule evalFive_score)
  next
    case (Some b)
    with \<open>bestOf7_loop cs (index_pairs (length cs)) None = Some r\<close> assms(1)
    have b: "b = h" and l: "bestOf7_loop cs (index_pairs (length cs)) None = Some (Some h)"
      by (simp_all add: bestOf7_def)
    from bestOf7_loop_origin[OF l] obtain five where "length five = 5" "evalFive five = Some h"
      by auto
    moreover from this have "five \<noteq> []" by auto
    ultimately show ?thesis using evalFive_score by blast
  qed
qed

text \<open>The running maximum of the first loop of \<open>showdown\<close>.\<close>

lemma showdown_loop_results:
  "showdown_loop g is rs b = Some (g2, rs', b') \<Longrightarrow>
     \<exists>hs. length hs = length is \<and> rs' = rs @ zip is hs \<and>
          (\<forall>k < length is. bestOf7 (hand (players g ! (is ! k)) @ community g) = Some (hs ! k)) \<and>
          b' = foldl (\<lambda>a h. if js_gt (score h) a then score h else a) b hs"
proof (induction "is" arbitrary: g rs b)
  case Nil
  then show ?case by simp
next
  case (Cons i "is")
  let ?p = "players g ! i"
  from Cons.prems obtain h cs where h: "bestOf7 (hand ?p @ community g) = Some h"
    and l: "showdown_loop (addLog g (MShows (pname ?p) cs (hname h))) is (rs @ [(i, h)])
              (if js_gt (score h) b then score h else b) = Some (g2, rs', b')"
    by (auto simp: Let_def split: option.splits)
  from Cons.IH[OF l] obtain hs where hs: "length hs = length is"
    "rs' = (rs @ [(i, h)]) @ zip is hs"
    "\<forall>k < length is. bestOf7 (hand (players g ! (is ! k)) @ community g) = Some (hs ! k)"
    "b' = foldl (\<lambda>a h. if js_gt (score h) a then score h else a)
            (if js_gt (score h) b then score h else b) hs"
    by auto
  have "\<forall>k < length (i # is). bestOf7 (hand (players g ! ((i # is) ! k)) @ community g)
           = Some ((h # hs) ! k)"
    using h hs(3) by (auto simp: nth_Cons split: nat.splits)
  then show ?case using hs(1,2,4) by (intro exI[of _ "h # hs"]) simp
qed

lemma foldl_max_Num:
  assumes "\<forall>h \<in> set hs. score h = Num (f h)"
  shows "foldl (\<lambda>a h. if js_gt (score h) a then score h else a) (Num m) hs
           = Num (foldl max m (map f hs))"
  using assms
proof (induction hs arbitrary: m)
  case Nil
  then show ?case by simp
next
  case (Cons h hs)
  then have "score h = Num (f h)" by simp
  then have "(if js_gt (score h) (Num m) then score h else Num m) = Num (max m (f h))"
    by (simp add: max_def)
  then show ?case using Cons by simp
qed

lemma foldl_max_ge: "m \<le> foldl max (m::int) ks \<and> (\<forall>k \<in> set ks. k \<le> foldl max m ks)"
proof (induction ks arbitrary: m)
  case Nil
  then show ?case by simp
next
  case (Cons k ks)
  from Cons[of "max m k"] show ?case by auto
qed

lemma foldl_max_mem: "foldl max (m::int) ks = m \<or> foldl max m ks \<in> set ks"
proof (induction ks arbitrary: m)
  case Nil
  then show ?case by simp
next
  case (Cons k ks)
  from Cons[of "max m k"] show ?case by (auto simp: max_def split: if_splits)
qed

lemma pay_loop_players:
  assumes "\<forall>w \<in> set ws. fst w < length (players g)" "distinct (map fst ws)"
  shows "length (players (pay_loop g ws s)) = length (players g) \<and>
         (\<forall>j < length (players g). players (pay_loop g ws s) ! j =
            (if j \<in> fst ` set ws then (players g ! j)\<lparr>chips := chips (players g ! j) + s\<rparr>
             else players g ! j))"
  using assms
proof (induction ws arbitrary: g)
  case Nil
  then show ?case by simp
next
  case (Cons w ws)
  obtain i h where w: "w = (i, h)" by (cases w)
  let ?g' = "addLog (setp g i ((players g ! i)\<lparr>chips := chips (players g ! i) + s\<rparr>))
               (MWins (pname (players g ! i)) s)"
  have step: "pay_loop g (w # ws) s = pay_loop ?g' ws s" by (simp add: w Let_def)
  have len: "length (players ?g') = length (players g)" by simp
  have i: "i < length (players g)" "i \<notin> fst ` set ws" using Cons.prems w by auto
  have "\<forall>w \<in> set ws. fst w < length (players ?g')" "distinct (map fst ws)"
    using Cons.prems by simp_all
  from Cons.IH[OF this] have IH: "length (players (pay_loop ?g' ws s)) = length (players ?g')"
    "\<forall>j < length (players ?g'). players (pay_loop ?g' ws s) ! j =
            (if j \<in> fst ` set ws then (players ?g' ! j)\<lparr>chips := chips (players ?g' ! j) + s\<rparr>
             else players ?g' ! j)" by simp_all
  show ?case unfolding step
  proof (intro conjI allI impI)
    show "length (players (pay_loop ?g' ws s)) = length (players g)" using IH(1) by simp
  next
    fix j assume j: "j < length (players g)"
    then have "players (pay_loop ?g' ws s) ! j =
            (if j \<in> fst ` set ws then (players ?g' ! j)\<lparr>chips := chips (players ?g' ! j) + s\<rparr>
             else players ?g' ! j)" using IH(2) by simp
    then show "players (pay_loop ?g' ws s) ! j =
       (if j \<in> fst ` set (w # ws) then (players g ! j)\<lparr>chips := chips (players g ! j) + s\<rparr>
        else players g ! j)"
      using i j w by (cases "j = i") auto
  qed
qed

lemma sum_chips_update:
  "i < length ps \<Longrightarrow>
     sum_list (map chips (ps[i := p])) = sum_list (map chips ps) - chips (ps ! i) + chips p"
proof (induction ps arbitrary: i)
  case Nil
  then show ?case by simp
next
  case (Cons q ps)
  then show ?case by (cases i) auto
qed

lemma pay_loop_sum:
  assumes "\<forall>w \<in> set ws. fst w < length (players g)"
  shows "sum_list (map chips (players (pay_loop g ws s)))
           = sum_list (map chips (players g)) + int (length ws) * s"
  using assms
proof (induction ws arbitrary: g)
  case Nil
  then show ?case by simp
next
  case (Cons w ws)
  obtain i h where w: "w = (i, h)" by (cases w)
  let ?g' = "addLog (setp g i ((players g ! i)\<lparr>chips := chips (players g ! i) + s\<rparr>))
               (MWins (pname (players g ! i)) s)"
  have step: "pay_loop g (w # ws) s = pay_loop ?g' ws s" by (simp add: w Let_def)
  have i: "i < length (players g)" using Cons.prems w by auto
  have "\<forall>w \<in> set ws. fst w < length (players ?g')" using Cons.prems by simp
  from Cons.IH[OF this] have "sum_list (map chips (players (pay_loop ?g' ws s)))
           = sum_list (map chips (players ?g')) + int (length ws) * s" .
  moreover have "sum_list (map chips (players ?g')) = sum_list (map chips (players g)) + s"
    using i by (simp add: sum_chips_update)
  ultimately show ?case unfolding step by (simp add: algebra_simps)
qed

lemma zip_map_self: "zip xs (map f xs) = map (\<lambda>x. (x, f x)) xs"
  by (induction xs) auto

lemma inHandPlayers_distinct: "distinct (inHandPlayers g)"
  by (simp add: inHandPlayers_def)

lemma max_filter:
  fixes sc :: "nat \<Rightarrow> int"
  assumes "\<forall>i \<in> set xs. 0 \<le> sc i"
  shows "filter (\<lambda>i. sc i = foldl max (- 1) (map sc xs)) xs
       = filter (\<lambda>i. \<forall>j \<in> set xs. sc j \<le> sc i) xs"
proof (rule filter_cong[OF refl])
  fix i assume i: "i \<in> set xs"
  let ?M = "foldl max (- 1) (map sc xs)"
  have ge: "\<forall>k \<in> set (map sc xs). k \<le> ?M" using foldl_max_ge[of "- 1" "map sc xs"] by blast
  show "(sc i = ?M) = (\<forall>j \<in> set xs. sc j \<le> sc i)"
  proof
    assume "sc i = ?M"
    then show "\<forall>j \<in> set xs. sc j \<le> sc i" using ge by auto
  next
    assume all: "\<forall>j \<in> set xs. sc j \<le> sc i"
    have "sc i \<le> ?M" using ge i by auto
    moreover have "?M \<le> sc i"
    proof -
      from foldl_max_mem[of "- 1" "map sc xs"] consider "?M = - 1" | "?M \<in> set (map sc xs)" by blast
      then show ?thesis
      proof cases
        case 1
        then show ?thesis using assms i by auto
      next
        case 2
        then show ?thesis using all by auto
      qed
    qed
    ultimately show "sc i = ?M" by simp
  qed
qed

lemma showdown_river_table:
  "map_option (\<lambda>(g', r). (map chips (players g'), r)) (showdown river_table)
     = Some ([1500, 1500],
         ShowdownOver [(''a'', ''a'', ''Straight'', 100), (''b'', ''b'', ''Straight'', 100)])"
  by code_simp

text \<open>
  C7 (at showdown every seat that is not folded and holds a hand has its best hand
  evaluated, every seat whose score is the maximum gets the same share
  \<open>floor (pot / number of winners)\<close>, then the pot is 0 and the phase \<open>waiting\<close>). \<open>ev\<close>
  is the evaluation of a seat and \<open>sc\<close> its integer score; \<open>W\<close> is the list of all seats
  still in the hand that no other such seat outscores. Each seat of \<open>W\<close> has the share
  added to its chips and is otherwise unchanged, as is every other seat. The evaluation
  throws on an \<^verbatim>\<open>undefined\<close> card, which \<open>cards_defined\<close> excludes.
\<close>

theorem showdown_pays_every_winner:
  assumes "cards_defined g"
  shows "\<exists>g' ev sc.
     (\<forall>i \<in> set (inHandPlayers g).
        bestOf7 (hand (players g ! i) @ community g) = Some (ev i) \<and> score (ev i) = Num (sc i)) \<and>
     (let W = filter (\<lambda>i. \<forall>j \<in> set (inHandPlayers g). sc j \<le> sc i) (inHandPlayers g);
          share = pot g div int (length W)
      in showdown g = Some (g', ShowdownOver
             (map (\<lambda>i. (pid (players g ! i), pname (players g ! i), hname (ev i), share)) W)) \<and>
         length (players g') = length (players g) \<and>
         (\<forall>i < length (players g).
            players g' ! i =
              (if i \<in> set W then (players g ! i)\<lparr>chips := chips (players g ! i) + share\<rparr>
               else players g ! i)) \<and>
         pot g' = 0 \<and> phase g' = Waiting)"
proof -
  let ?g1 = "addLog (g\<lparr>phase := Showdown\<rparr>) (MStreet ''SHOWDOWN'')"
  let ?is = "inHandPlayers g"
  have is1: "inHandPlayers ?g1 = ?is" by (simp add: inHandPlayers_def)
  have lt: "\<forall>i \<in> set ?is. i < length (players g)" using inHand_lt by blast
  have "showdown_loop ?g1 ?is [] (Num (- 1)) \<noteq> None"
    by (rule showdown_loop_defined) (use assms lt in \<open>auto simp: cards_defined_def\<close>)
  then obtain g2 rs b where l: "showdown_loop ?g1 ?is [] (Num (- 1)) = Some (g2, rs, b)"
    by auto
  from showdown_loop_results[OF l] obtain hs where hs: "length hs = length ?is"
    "rs = zip ?is hs"
    "\<forall>k < length ?is. bestOf7 (hand (players g ! (?is ! k)) @ community g) = Some (hs ! k)"
    "b = foldl (\<lambda>a h. if js_gt (score h) a then score h else a) (Num (- 1)) hs"
    by auto
  define f where "f h = (case score h of Num k \<Rightarrow> k | NaN \<Rightarrow> 0)" for h :: hand_result
  define ev where "ev i = the (bestOf7 (hand (players g ! i) @ community g))" for i
  define sc where "sc i = f (ev i)" for i
  have hsev: "hs = map ev ?is"
  proof (rule nth_equalityI)
    show "length hs = length (map ev ?is)" using hs(1) by simp
  next
    fix k assume "k < length hs"
    then have "k < length ?is" using hs(1) by simp
    with hs(3) show "hs ! k = map ev ?is ! k" by (simp add: ev_def)
  qed
  have evs: "bestOf7 (hand (players g ! i) @ community g) = Some (ev i)
             \<and> score (ev i) = Num (sc i) \<and> 0 \<le> sc i" if "i \<in> set ?is" for i
  proof -
    from that obtain k where k: "k < length ?is" "?is ! k = i" by (auto simp: in_set_conv_nth)
    with hs(3) hsev have e: "bestOf7 (hand (players g ! i) @ community g) = Some (ev i)"
      by (auto simp: ev_def)
    have "length (hand (players g ! i)) = 2" using that inHand_props by blast
    then have "hand (players g ! i) @ community g \<noteq> []" by auto
    from bestOf7_score[OF e this] obtain n where "score (ev i) = Num n" "0 \<le> n" by blast
    then show ?thesis using e by (simp add: sc_def f_def)
  qed
  have fs: "\<forall>h \<in> set hs. score h = Num (f h)"
    unfolding hsev using evs by (auto simp: sc_def)
  define M where "M = foldl max (- 1) (map sc ?is)"
  have "b = Num (foldl max (- 1) (map f hs))"
    unfolding hs(4) by (rule foldl_max_Num[OF fs])
  moreover have "map f hs = map sc ?is" by (simp add: hsev sc_def)
  ultimately have b: "b = Num M" by (simp add: M_def)
  define W where "W = filter (\<lambda>i. \<forall>j \<in> set ?is. sc j \<le> sc i) ?is"
  have Wsub: "set W \<subseteq> set ?is" by (auto simp: W_def)
  have WM: "W = filter (\<lambda>i. sc i = M) ?is"
    unfolding W_def M_def by (rule max_filter[symmetric]) (use evs in auto)
  let ?ws = "filter (\<lambda>(i, h). js_eq (score h) b) rs"
  have ws: "?ws = map (\<lambda>i. (i, ev i)) W"
  proof -
    have "rs = map (\<lambda>i. (i, ev i)) ?is" unfolding hs(2) hsev by (rule zip_map_self)
    then have "?ws = map (\<lambda>i. (i, ev i)) (filter (\<lambda>i. js_eq (score (ev i)) b) ?is)"
      by (simp add: filter_map comp_def)
    also have "filter (\<lambda>i. js_eq (score (ev i)) b) ?is = filter (\<lambda>i. sc i = M) ?is"
      by (rule filter_cong[OF refl]) (use evs b in auto)
    finally show ?thesis using WM by simp
  qed
  define share where "share = pot g div int (length W)"
  have g2: "g2 = ?g1\<lparr>log := log g2\<rparr>" by (rule showdown_loop_frame[OF l])
  have p2: "players g2 = players g" "pot g2 = pot g"
    using arg_cong[OF g2, of players] arg_cong[OF g2, of pot] by simp_all
  let ?g3 = "pay_loop g2 ?ws (pot g2 div int (length ?ws))"
  have sh: "pot g2 div int (length ?ws) = share" by (simp add: ws p2 share_def)
  have "\<forall>w \<in> set ?ws. fst w < length (players g2)" "distinct (map fst ?ws)"
    using lt Wsub inHandPlayers_distinct[of g] by (auto simp: ws p2 comp_def W_def)
  from pay_loop_players[OF this, of "pot g2 div int (length ?ws)"]
  have p3: "length (players ?g3) = length (players g)"
    "\<forall>j < length (players g). players ?g3 ! j =
        (if j \<in> set W then (players g ! j)\<lparr>chips := chips (players g ! j) + share\<rparr>
         else players g ! j)"
    unfolding sh by (simp_all add: p2 ws image_comp comp_def)
  define g' where "g' = ?g3\<lparr>pot := 0, phase := Waiting\<rparr>"
  have info: "map (\<lambda>(i, h). (pid (players ?g3 ! i), pname (players ?g3 ! i), hname h,
                  pot g2 div int (length ?ws))) ?ws
      = map (\<lambda>i. (pid (players g ! i), pname (players g ! i), hname (ev i), share)) W"
  proof -
    have "(pid (players ?g3 ! i), pname (players ?g3 ! i), hname (ev i), share)
        = (pid (players g ! i), pname (players g ! i), hname (ev i), share)" if "i \<in> set W" for i
    proof -
      from that Wsub lt have "i < length (players g)" by auto
      with p3(2) that show ?thesis by simp
    qed
    then have "map (\<lambda>i. (pid (players ?g3 ! i), pname (players ?g3 ! i), hname (ev i), share)) W
        = map (\<lambda>i. (pid (players g ! i), pname (players g ! i), hname (ev i), share)) W"
      by (intro map_cong refl)
    moreover have "map (\<lambda>(i, h). (pid (players ?g3 ! i), pname (players ?g3 ! i), hname h,
                  pot g2 div int (length ?ws))) (map (\<lambda>i. (i, ev i)) W)
       = map (\<lambda>i. (pid (players ?g3 ! i), pname (players ?g3 ! i), hname (ev i), share)) W"
      unfolding sh by (simp add: comp_def)
    ultimately show ?thesis using ws by simp
  qed
  have res: "showdown g = Some (g', ShowdownOver
             (map (\<lambda>i. (pid (players g ! i), pname (players g ! i), hname (ev i), share)) W))"
    unfolding showdown_def Let_def is1 l g'_def using info by simp
  have fin: "length (players g') = length (players g)" "pot g' = 0" "phase g' = Waiting"
    "\<forall>i < length (players g). players g' ! i =
        (if i \<in> set W then (players g ! i)\<lparr>chips := chips (players g ! i) + share\<rparr>
         else players g ! i)"
    using p3 by (simp_all add: g'_def)
  have E: "\<forall>i \<in> set ?is. bestOf7 (hand (players g ! i) @ community g) = Some (ev i)
             \<and> score (ev i) = Num (sc i)" using evs by blast
  show ?thesis
    apply (rule exI[of _ g'], rule exI[of _ ev], rule exI[of _ sc])
    unfolding Let_def W_def[symmetric] share_def[symmetric]
    using E res fin by blast
qed

theorem showdown_pays_every_winner_witness:
  "cards_defined river_table \<and>
   (\<exists>g'. showdown river_table
            = Some (g', ShowdownOver [(''a'', ''a'', ''Straight'', 100),
                                      (''b'', ''b'', ''Straight'', 100)]) \<and>
         map chips (players g') = [1500, 1500] \<and> pot g' = 0 \<and> phase g' = Waiting)"
proof -
  have cd: "cards_defined river_table"
    by (simp add: cards_defined_def river_table_def newGame_def seat_def hole_a_def hole_b_def)
  from showdown_pays_every_winner[OF cd] obtain g' r where
    g': "showdown river_table = Some (g', r)" "pot g' = 0" "phase g' = Waiting"
    by (auto simp: Let_def)
  with showdown_river_table have "map chips (players g') = [1500, 1500]"
    "r = ShowdownOver [(''a'', ''a'', ''Straight'', 100), (''b'', ''b'', ''Straight'', 100)]"
    by simp_all
  with g' cd show ?thesis by (intro conjI exI[of _ g']) simp_all
qed

section \<open>Chips in play\<close>

lemma actionSwitch_chips_pot:
  assumes "actionSwitch g ci action amount = Inr g1" "ci < length (players g)"
  shows "chips_pot g1 = chips_pot g"
  using assms
  by (auto simp: actionSwitch_def Let_def chips_pot_def sum_chips_update split: if_splits)

lemma chips_bet_update [simp]: "chips \<circ> bet_update f = chips"
  by (simp add: fun_eq_iff)

lemma sum_chips_bets_reset:
  "sum_list (map chips (map (\<lambda>p. p\<lparr>bet := 0\<rparr>) ps)) = sum_list (map chips ps)"
  by simp

lemma showdown_sum:
  assumes "showdown g = Some (g', ShowdownOver wi)"
  shows "pot g' = 0 \<and>
         sum_list (map chips (players g'))
           = sum_list (map chips (players g)) + int (length wi) * (pot g div int (length wi))"
proof -
  let ?g1 = "addLog (g\<lparr>phase := Showdown\<rparr>) (MStreet ''SHOWDOWN'')"
  let ?is = "inHandPlayers g"
  have is1: "inHandPlayers ?g1 = ?is" by (simp add: inHandPlayers_def)
  from assms obtain g2 rs b where l: "showdown_loop ?g1 ?is [] (Num (- 1)) = Some (g2, rs, b)"
    unfolding showdown_def Let_def is1 by (auto split: option.splits)
  let ?ws = "filter (\<lambda>(i, h). js_eq (score h) b) rs"
  let ?share = "pot g2 div int (length ?ws)"
  let ?g3 = "pay_loop g2 ?ws ?share"
  from assms have g': "g' = ?g3\<lparr>pot := 0, phase := Waiting\<rparr>" and wi: "length wi = length ?ws"
    unfolding showdown_def Let_def is1 l by auto
  have g2: "g2 = ?g1\<lparr>log := log g2\<rparr>" by (rule showdown_loop_frame[OF l])
  have p2: "players g2 = players g" "pot g2 = pot g"
    using arg_cong[OF g2, of players] arg_cong[OF g2, of pot] by simp_all
  from showdown_loop_results[OF l] obtain hs where "length hs = length ?is" "rs = zip ?is hs"
    by auto
  then have "\<forall>w \<in> set rs. fst w < length (players g)"
    using inHand_lt[of _ g] by (auto dest!: set_zip_leftD)
  then have "\<forall>w \<in> set ?ws. fst w < length (players g2)" by (simp add: p2)
  from pay_loop_sum[OF this, of ?share]
  have "sum_list (map chips (players ?g3))
          = sum_list (map chips (players g)) + int (length ?ws) * (pot g div int (length ?ws))"
    by (simp add: p2)
  then show ?thesis unfolding g' wi by simp
qed

lemma nextStreet_chips:
  assumes "nextStreet g = Some (g', r)"
  shows "(\<forall>ws. r \<noteq> ShowdownOver ws) \<longrightarrow> chips_pot g' = chips_pot g"
    and "\<forall>ws. r = ShowdownOver ws \<longrightarrow> pot g' = 0 \<and>
           sum_list (map chips (players g'))
             = sum_list (map chips (players g)) + int (length ws) * (pot g div int (length ws))"
proof -
  let ?g1 = "g\<lparr>players := map (\<lambda>p. p\<lparr>bet := 0\<rparr>) (players g), callAmount := 0,
                 minRaise := Some (BIG_BLIND g), actedThisRound := {}, roundBets := Map.empty\<rparr>"
  show "(\<forall>ws. r \<noteq> ShowdownOver ws) \<longrightarrow> chips_pot g' = chips_pot g"
  proof (cases "phase g = River")
    case True
    then have "showdown ?g1 = Some (g', r)" using assms by (simp add: nextStreet_def Let_def)
    from showdown_result[OF this] show ?thesis by auto
  next
    case False
    then show ?thesis using assms
      by (auto simp: nextStreet_def Let_def bind_eq_Some_conv chips_pot_def sum_chips_bets_reset
               split: if_splits)
  qed
  show "\<forall>ws. r = ShowdownOver ws \<longrightarrow> pot g' = 0 \<and>
           sum_list (map chips (players g'))
             = sum_list (map chips (players g)) + int (length ws) * (pot g div int (length ws))"
  proof (cases "phase g = River")
    case True
    then have sd: "showdown ?g1 = Some (g', r)" using assms by (simp add: nextStreet_def Let_def)
    show ?thesis
    proof (intro allI impI)
      fix ws assume "r = ShowdownOver ws"
      with sd have "showdown ?g1 = Some (g', ShowdownOver ws)" by simp
      from showdown_sum[OF this] show "pot g' = 0 \<and>
           sum_list (map chips (players g'))
             = sum_list (map chips (players g)) + int (length ws) * (pot g div int (length ws))"
        by (simp add: sum_chips_bets_reset)
    qed
  next
    case False
    then show ?thesis using assms
      by (auto simp: nextStreet_def Let_def bind_eq_Some_conv split: if_splits)
  qed
qed

lemma advanceTurn_chips:
  assumes "advanceTurn g = Some (g', r)"
  shows "((\<forall>ws. r \<noteq> ShowdownOver ws) \<longrightarrow> chips_pot g' = chips_pot g) \<and>
         (\<forall>ws. r = HandOver ws \<longrightarrow> pot g' = 0) \<and>
         (\<forall>ws. r = ShowdownOver ws \<longrightarrow> pot g' = 0 \<and>
           sum_list (map chips (players g'))
             = sum_list (map chips (players g)) + int (length ws) * (pot g div int (length ws)))"
proof (cases "\<exists>w. inHandPlayers g = [w]")
  case True
  then obtain w where w: "inHandPlayers g = [w]" by blast
  then have "w < length (players g)" using inHand_lt[of w g] by simp
  then show ?thesis using assms unfolding advanceTurn_single[OF w]
    by (auto simp: chips_pot_def sum_chips_update)
next
  case False
  then have adv: "advanceTurn g = do {
            next \<leftarrow> findNextToAct g;
            if next = - 1 then nextStreet g
            else do {
              p \<leftarrow> at (players g) next;
              Some (g\<lparr>currentIndex := next\<rparr>, NextTurn (pid p))
            }
          }"
    by (auto simp: advanceTurn_def split: list.splits)
  from assms obtain nx where nx: "findNextToAct g = Some nx"
    unfolding adv by (auto simp: bind_eq_Some_conv)
  show ?thesis
  proof (cases "nx = - 1")
    case True
    then have ns: "nextStreet g = Some (g', r)" using assms nx unfolding adv by simp
    from nextStreet_chips[OF ns] nextStreet_result[OF ns] show ?thesis by auto
  next
    case False
    then show ?thesis using assms nx unfolding adv
      by (auto simp: bind_eq_Some_conv chips_pot_def)
  qed
qed

text \<open>
  C1 (chips plus street bets plus pot is unchanged by every successful action; a
  settlement credits the winners exactly the pot). The engine adds what an action
  commits to the player's street bet and to the pot at once, so the sum that counts
  both grows: on \<open>blinds_table\<close> the call of 25 takes it from 3075 to 3100. At a showdown
  every winner gets \<open>floor (pot / number of winners)\<close>: on \<open>river_table\<close> the last check
  leads to a showdown that pays 100 to each of two winners out of a pot of 201, and the
  chips in play go from 3001 to 3000.
\<close>

theorem chips_bets_pot_counterexample:
  "chips_bets_pot blinds_table = 3075 \<and>
   map_option (chips_bets_pot \<circ> fst) (applyAction blinds_table ''b'' ''call'' 0) = Some 3100 \<and>
   map_option snd (applyAction blinds_table ''b'' ''call'' 0) = Some (NextTurn ''a'') \<and>
   chips_pot river_table = 3001 \<and>
   map_option (chips_pot \<circ> fst) (applyAction river_table ''a'' ''check'' 0) = Some 3000 \<and>
   map_option snd (applyAction river_table ''a'' ''check'' 0)
     = Some (ShowdownOver [(''a'', ''a'', ''Straight'', 100), (''b'', ''b'', ''Straight'', 100)])"
  by code_simp

text \<open>
  C1, amended: chips plus pot is unchanged by the \<^verbatim>\<open>switch\<close> of every successful action
  (state \<open>g1\<close>) and by the whole call unless it ends in a showdown; the payout to the last
  player in the hand credits exactly the pot and leaves the pot 0; a showdown leaves the
  pot 0 and credits the winners \<open>n * floor (pot / n)\<close> in total for \<open>n\<close> winners, the whole
  pot exactly when \<open>n\<close> divides it.
\<close>

theorem chips_and_pot_conserved:
  assumes "applyAction g playerId action amount = Some (g', r)" "\<forall>e. r \<noteq> Err e"
  shows "\<exists>g1. actionSwitch g (nat (currentIndex g)) action amount = Inr g1 \<and>
           chips_pot g1 = chips_pot g \<and>
           ((\<forall>ws. r \<noteq> ShowdownOver ws) \<longrightarrow> chips_pot g' = chips_pot g) \<and>
           (\<forall>ws. r = HandOver ws \<longrightarrow>
              pot g' = 0 \<and>
              sum_list (map chips (players g')) = sum_list (map chips (players g1)) + pot g1) \<and>
           (\<forall>ws. r = ShowdownOver ws \<longrightarrow>
              pot g' = 0 \<and>
              sum_list (map chips (players g'))
                = sum_list (map chips (players g1))
                  + int (length ws) * (pot g1 div int (length ws)))"
proof -
  let ?ci = "nat (currentIndex g)"
  from assms obtain p where p: "at (players g) (currentIndex g) = Some p" "pid p = playerId"
    by (auto simp: applyAction_def split: option.splits if_splits)
  then have ci: "?ci < length (players g)" by (auto simp: at_def split: if_splits)
  from assms p obtain g1 where g1: "actionSwitch g ?ci action amount = Inr g1"
    by (auto simp: applyAction_def split: sum.splits)
  let ?g2 = "g1\<lparr>actedThisRound := insert playerId (actedThisRound g1),
                lastAction := Some (playerId, action, amount)\<rparr>"
  have adv: "advanceTurn ?g2 = Some (g', r)" using assms(1) p g1 by (simp add: applyAction_def)
  have c1: "chips_pot g1 = chips_pot g" by (rule actionSwitch_chips_pot[OF g1 ci])
  have c2: "chips_pot ?g2 = chips_pot g1" "pot ?g2 = pot g1" "players ?g2 = players g1"
    by (simp_all add: chips_pot_def)
  note a = advanceTurn_chips[OF adv]
  have A: "(\<forall>ws. r \<noteq> ShowdownOver ws) \<longrightarrow> chips_pot g' = chips_pot g"
    using a c1 c2 by simp
  have B: "\<forall>ws. r = HandOver ws \<longrightarrow>
              pot g' = 0 \<and>
              sum_list (map chips (players g')) = sum_list (map chips (players g1)) + pot g1"
  proof (intro allI impI)
    fix ws assume r: "r = HandOver ws"
    with a have "pot g' = 0" "chips_pot g' = chips_pot ?g2" by auto
    then show "pot g' = 0 \<and>
              sum_list (map chips (players g')) = sum_list (map chips (players g1)) + pot g1"
      by (simp add: chips_pot_def)
  qed
  have C: "\<forall>ws. r = ShowdownOver ws \<longrightarrow>
              pot g' = 0 \<and>
              sum_list (map chips (players g'))
                = sum_list (map chips (players g1))
                  + int (length ws) * (pot g1 div int (length ws))"
    using a c2 by simp
  show ?thesis using g1 c1 A B C by blast
qed

lemma call_blinds_table:
  "map_option snd (applyAction blinds_table ''b'' ''call'' 0) = Some (NextTurn ''a'')"
  by code_simp

lemma check_river_table:
  "map_option snd (applyAction river_table ''a'' ''check'' 0)
     = Some (ShowdownOver [(''a'', ''a'', ''Straight'', 100), (''b'', ''b'', ''Straight'', 100)])"
  by code_simp

lemma check_river_switch:
  "map_sum id (\<lambda>g1. (map chips (players g1), pot g1)) (actionSwitch river_table 0 ''check'' 0)
     = Inr ([1400, 1400], 201)"
  by code_simp

theorem chips_and_pot_conserved_witness:
  "(\<exists>g'. applyAction blinds_table ''b'' ''call'' 0 = Some (g', NextTurn ''a'') \<and>
         chips_pot g' = chips_pot blinds_table) \<and>
   chips_pot blinds_table = 3000 \<and>
   (\<exists>g'. applyAction river_table ''a'' ''check'' 0
            = Some (g', ShowdownOver [(''a'', ''a'', ''Straight'', 100),
                                      (''b'', ''b'', ''Straight'', 100)]) \<and>
         pot g' = 0 \<and> sum_list (map chips (players g')) = 2800 + 2 * (201 div 2))"
proof -
  from call_blinds_table obtain g' where
    c: "applyAction blinds_table ''b'' ''call'' 0 = Some (g', NextTurn ''a'')"
    by (cases "applyAction blinds_table ''b'' ''call'' 0") auto
  from chips_and_pot_conserved[OF c] have "chips_pot g' = chips_pot blinds_table" by auto
  with c have A: "\<exists>g'. applyAction blinds_table ''b'' ''call'' 0 = Some (g', NextTurn ''a'') \<and>
         chips_pot g' = chips_pot blinds_table" by blast
  have B: "chips_pot blinds_table = 3000"
    by (simp add: chips_pot_def blinds_table_def newGame_def seat_def)
  let ?w = "[(''a'', ''a'', ''Straight'', 100), (''b'', ''b'', ''Straight'', 100)]"
  from check_river_table obtain g'' where
    s: "applyAction river_table ''a'' ''check'' 0 = Some (g'', ShowdownOver ?w)"
    by (cases "applyAction river_table ''a'' ''check'' 0") auto
  have ci: "nat (currentIndex river_table) = 0" by (simp add: river_table_def newGame_def)
  from chips_and_pot_conserved[OF s] obtain g1 where
    g1: "actionSwitch river_table (nat (currentIndex river_table)) ''check'' 0 = Inr g1"
    and sd: "pot g'' = 0 \<and> sum_list (map chips (players g''))
                = sum_list (map chips (players g1)) + int (length ?w) * (pot g1 div int (length ?w))"
    by auto
  from g1 check_river_switch have "map chips (players g1) = [1400, 1400]" "pot g1 = 201"
    unfolding ci by simp_all
  with sd have "pot g'' = 0 \<and> sum_list (map chips (players g'')) = 2800 + 2 * (201 div 2)"
    by simp
  with s have C: "\<exists>g'. applyAction river_table ''a'' ''check'' 0 = Some (g', ShowdownOver ?w) \<and>
         pot g' = 0 \<and> sum_list (map chips (players g')) = 2800 + 2 * (201 div 2)"
    by (intro exI[of _ g'']) simp
  from A B C show ?thesis by (intro conjI)
qed

section \<open>Starting a hand, step by step\<close>

lemma deal_loop_length [simp]: "length (fst (deal_loop ps d)) = length ps"
  by (induction ps arbitrary: d) (simp_all add: Let_def case_prod_beta)

lemma resetForHand_players [simp]:
  "players (resetForHand g st rand) = map resetPlayer (players g)"
  by (simp add: resetForHand_def Let_def split: option.splits)

lemma postBlind_Some:
  assumes "0 \<le> idx" "idx < int (length (players g))"
  shows "postBlind g idx amount ty =
     Some (g\<lparr>pot := pot g + min amount (chips (players g ! nat idx)),
             roundBets := (roundBets g)(pid (players g ! nat idx) \<mapsto>
                or0 (roundBets g (pid (players g ! nat idx))) + min amount (chips (players g ! nat idx))),
             players := (players g)[nat idx :=
                (players g ! nat idx)\<lparr>chips := chips (players g ! nat idx) - min amount (chips (players g ! nat idx)),
                    bet := bet (players g ! nat idx) + min amount (chips (players g ! nat idx)),
                    allIn := (if chips (players g ! nat idx) - min amount (chips (players g ! nat idx)) = 0
                              then True else allIn (players g ! nat idx))\<rparr>]\<rparr>)"
  using assms by (simp add: postBlind_def at_def Let_def setp_def)

lemma postBlind_fields:
  assumes "postBlind g idx amount ty = Some g'"
  shows "dealerIndex g' = dealerIndex g" "callAmount g' = callAmount g"
    "BIG_BLIND g' = BIG_BLIND g" "SMALL_BLIND g' = SMALL_BLIND g" "handNumber g' = handNumber g"
    "community g' = community g" "deck g' = deck g" "phase g' = phase g"
    "minRaise g' = minRaise g" "length (players g') = length (players g)"
    "currentIndex g' = currentIndex g" "actedThisRound g' = actedThisRound g"
proof -
  from assms obtain p where p: "at (players g) idx = Some p"
    by (cases "at (players g) idx") (simp_all add: postBlind_def)
  with assms have "g' = setp (g\<lparr>pot := pot g + min amount (chips p),
                      roundBets := (roundBets g)(pid p \<mapsto> or0 (roundBets g (pid p)) + min amount (chips p))\<rparr>)
            (nat idx) (if chips p - min amount (chips p) = 0
               then p\<lparr>chips := chips p - min amount (chips p), bet := bet p + min amount (chips p), allIn := True\<rparr>
               else p\<lparr>chips := chips p - min amount (chips p), bet := bet p + min amount (chips p)\<rparr>)"
    by (simp add: postBlind_def Let_def)
  then show "dealerIndex g' = dealerIndex g" "callAmount g' = callAmount g"
    "BIG_BLIND g' = BIG_BLIND g" "SMALL_BLIND g' = SMALL_BLIND g" "handNumber g' = handNumber g"
    "community g' = community g" "deck g' = deck g" "phase g' = phase g"
    "minRaise g' = minRaise g" "length (players g') = length (players g)"
    "currentIndex g' = currentIndex g" "actedThisRound g' = actedThisRound g"
    by simp_all
qed

lemma startHand_unfold:
  assumes "2 \<le> length (activePlayers g)"
  shows "\<exists>d sb bb g7 g8 g9 ci g'.
     nextActiveIndex (resetForHand g st rand) (dealerIndex g) 1 = Some d \<and>
     g7 = (resetForHand g st rand)\<lparr>dealerIndex := d,
             players := fst (deal_loop (map resetPlayer (players g)) (newDeck rand)),
             deck := snd (deal_loop (map resetPlayer (players g)) (newDeck rand))\<rparr> \<and>
     nextActiveIndex g7 d 1 = Some sb \<and> nextActiveIndex g7 sb 1 = Some bb \<and>
     postBlind g7 sb (SMALL_BLIND g7) ''SB'' = Some g8 \<and>
     postBlind g8 bb (BIG_BLIND g8) ''BB'' = Some g9 \<and>
     nextActiveIndex (g9\<lparr>phase := Preflop\<rparr>) bb 1 = Some ci \<and>
     g' = g9\<lparr>phase := Preflop, currentIndex := ci, log := log g'\<rparr> \<and>
     startHand g st rand = Some (g', Success None) \<and>
     0 \<le> d \<and> d < int (length (players g)) \<and> 0 \<le> sb \<and> sb < int (length (players g)) \<and>
     0 \<le> bb \<and> bb < int (length (players g)) \<and> 0 \<le> ci \<and> ci < int (length (players g))"
proof -
  let ?n = "int (length (players g))"
  let ?g5 = "resetForHand g st rand"
  have "length (activePlayers g) \<le> length (players g)" by (simp add: activePlayers_def)
  with assms have ne: "players g \<noteq> []" by auto
  have d5: "dealerIndex ?g5 = dealerIndex g" "deck ?g5 = newDeck rand"
    by (simp_all add: resetForHand_def Let_def split: option.splits)
  have "players ?g5 \<noteq> []" using ne by simp
  from nextActiveIndex_Some[OF this, of "dealerIndex g" 1] obtain d where
    d: "nextActiveIndex ?g5 (dealerIndex g) 1 = Some d" "0 \<le> d" "d < ?n" by auto
  define g7 where "g7 = ?g5\<lparr>dealerIndex := d,
             players := fst (deal_loop (map resetPlayer (players g)) (newDeck rand)),
             deck := snd (deal_loop (map resetPlayer (players g)) (newDeck rand))\<rparr>"
  have l7: "length (players g7) = length (players g)" by (simp add: g7_def)
  then have ne7: "players g7 \<noteq> []" using ne by auto
  from nextActiveIndex_Some[OF ne7, of d 1] obtain sb where
    sb: "nextActiveIndex g7 d 1 = Some sb" "0 \<le> sb" "sb < ?n" using l7 by auto
  from nextActiveIndex_Some[OF ne7, of sb 1] obtain bb where
    bb: "nextActiveIndex g7 sb 1 = Some bb" "0 \<le> bb" "bb < ?n" using l7 by auto
  have "sb < int (length (players g7))" using sb l7 by simp
  from postBlind_Some[OF sb(2) this, of "SMALL_BLIND g7" "''SB''"] obtain g8 where
    g8a: "postBlind g7 sb (SMALL_BLIND g7) ''SB'' = Some g8" by blast
  have g8: "postBlind g7 sb (SMALL_BLIND g7) ''SB'' = Some g8" "length (players g8) = length (players g)"
    using g8a postBlind_fields(10)[OF g8a] l7 by simp_all
  have "bb < int (length (players g8))" using bb g8 by simp
  from postBlind_Some[OF bb(2) this, of "BIG_BLIND g8" "''BB''"] obtain g9 where
    g9a: "postBlind g8 bb (BIG_BLIND g8) ''BB'' = Some g9" by blast
  have g9: "postBlind g8 bb (BIG_BLIND g8) ''BB'' = Some g9" "length (players g9) = length (players g)"
    using g9a postBlind_fields(10)[OF g9a] g8(2) by simp_all
  let ?g10 = "g9\<lparr>phase := Preflop\<rparr>"
  have ne10: "players ?g10 \<noteq> []" using g9 ne by auto
  from nextActiveIndex_Some[OF ne10, of bb 1] obtain ci where
    ci: "nextActiveIndex ?g10 bb 1 = Some ci" "0 \<le> ci" "ci < ?n" using g9 by auto
  let ?g11 = "?g10\<lparr>currentIndex := ci\<rparr>"
  have dl: "dealerIndex ?g11 = d"
    using postBlind_fields(1)[OF g8(1)] postBlind_fields(1)[OF g9(1)] by (simp add: g7_def)
  have a1: "at (players ?g11) d = Some (players g9 ! nat d)" using d g9 by (simp add: at_def)
  let ?g12 = "addLog ?g11 (MHand (handNumber ?g11) (pname (players g9 ! nat d)))"
  have a2: "at (players ?g12) sb = Some (players g9 ! nat sb)" using sb g9 by (simp add: at_def)
  let ?g13 = "addLog ?g12 (MPosts (pname (players g9 ! nat sb)) (SMALL_BLIND ?g12) ''SB'')"
  have a3: "at (players ?g13) bb = Some (players g9 ! nat bb)" using bb g9 by (simp add: at_def)
  let ?g14 = "addLog ?g13 (MPosts (pname (players g9 ! nat bb)) (BIG_BLIND ?g13) ''BB'')"
  have sb7: "SMALL_BLIND g7 = SMALL_BLIND ?g5" by (simp add: g7_def)
  have sh: "startHand g st rand = Some (?g14, Success None)"
    using assms d(1) sb(1) bb(1) g8(1)[unfolded sb7] g9(1) ci(1) a1 a2 a3 dl
    unfolding startHand_def g7_def[symmetric] Let_def
    by (simp add: d5 g7_def[symmetric])
  have fr: "?g14 = g9\<lparr>phase := Preflop, currentIndex := ci, log := log ?g14\<rparr>"
    by (simp add: addLog_def Let_def)
  show ?thesis
    using d sb bb g8(1) g9(1) ci sh fr g7_def by blast
qed

section \<open>Errors and the call amount\<close>

lemma resetForHand_blind:
  "callAmount (resetForHand g st rand) = BIG_BLIND (resetForHand g st rand)"
  "BIG_BLIND (resetForHand g st rand)
     = (case bigBlind st of None \<Rightarrow> BIG_BLIND g | Some x \<Rightarrow> if x \<noteq> 0 then x else BIG_BLIND g)"
  by (simp_all add: resetForHand_def Let_def split: option.splits)

lemma startHand_callAmount:
  assumes "startHand g st rand = Some (g', r)" "\<forall>e. r \<noteq> Err e"
  shows "callAmount g' = BIG_BLIND g' \<and>
         BIG_BLIND g' = (case bigBlind st of None \<Rightarrow> BIG_BLIND g
                         | Some x \<Rightarrow> if x \<noteq> 0 then x else BIG_BLIND g)"
proof -
  have two: "2 \<le> length (activePlayers g)"
  proof (rule ccontr)
    assume "\<not> 2 \<le> length (activePlayers g)"
    then have "startHand g st rand = Some (g, Err NotEnoughPlayers)" by (simp add: startHand_def)
    with assms show False by auto
  qed
  from startHand_unfold[OF two, of st rand] obtain d sb bb g7 g8 g9 ci g'' where
    g7: "g7 = (resetForHand g st rand)\<lparr>dealerIndex := d,
             players := fst (deal_loop (map resetPlayer (players g)) (newDeck rand)),
             deck := snd (deal_loop (map resetPlayer (players g)) (newDeck rand))\<rparr>"
    and g8: "postBlind g7 sb (SMALL_BLIND g7) ''SB'' = Some g8"
    and g9: "postBlind g8 bb (BIG_BLIND g8) ''BB'' = Some g9"
    and g'': "g'' = g9\<lparr>phase := Preflop, currentIndex := ci, log := log g''\<rparr>"
    and sh: "startHand g st rand = Some (g'', Success None)"
    by blast
  from sh assms(1) have eq: "g' = g''" by simp
  have "callAmount g'' = callAmount g9" "BIG_BLIND g'' = BIG_BLIND g9"
    using arg_cong[OF g'', of callAmount] arg_cong[OF g'', of BIG_BLIND] by simp_all
  moreover have "callAmount g9 = callAmount g7" "BIG_BLIND g9 = BIG_BLIND g7"
    using postBlind_fields[OF g8] postBlind_fields[OF g9] by simp_all
  moreover have "callAmount g7 = callAmount (resetForHand g st rand)"
    "BIG_BLIND g7 = BIG_BLIND (resetForHand g st rand)" by (simp_all add: g7)
  ultimately show ?thesis unfolding eq using resetForHand_blind[of g st rand] by simp
qed

lemma showdown_callAmount:
  assumes "showdown g = Some (g', r)"
  shows "callAmount g' = callAmount g"
  using arg_cong[OF showdown_frame[OF assms], of callAmount] by simp

lemma nextStreet_callAmount: "nextStreet g = Some (g', r) \<Longrightarrow> callAmount g' = 0"
  by (auto simp: nextStreet_def Let_def bind_eq_Some_conv dest!: showdown_callAmount split: if_splits)

lemma advanceTurn_callAmount:
  assumes "advanceTurn g = Some (g', r)"
  shows "callAmount g' = callAmount g \<or> callAmount g' = 0"
proof (cases "\<exists>w. inHandPlayers g = [w]")
  case True
  then show ?thesis using assms by (auto simp: advanceTurn_def Let_def)
next
  case False
  then have adv: "advanceTurn g = do {
            next \<leftarrow> findNextToAct g;
            if next = - 1 then nextStreet g
            else do {
              p \<leftarrow> at (players g) next;
              Some (g\<lparr>currentIndex := next\<rparr>, NextTurn (pid p))
            }
          }"
    by (auto simp: advanceTurn_def split: list.splits)
  from assms obtain nx where nx: "findNextToAct g = Some nx"
    unfolding adv by (auto simp: bind_eq_Some_conv)
  show ?thesis
  proof (cases "nx = - 1")
    case True
    then have "nextStreet g = Some (g', r)" using assms nx unfolding adv by simp
    from nextStreet_callAmount[OF this] show ?thesis by simp
  next
    case False
    then show ?thesis using assms nx unfolding adv by (auto simp: bind_eq_Some_conv)
  qed
qed

lemma actionSwitch_callAmount:
  assumes "actionSwitch g ci action amount = Inr g1" "0 \<le> callAmount g"
  shows "0 \<le> callAmount g1"
  using assms by (auto simp: actionSwitch_def Let_def split: if_splits)

lemma applyAction_callAmount:
  assumes "applyAction g playerId action amount = Some (g', r)" "0 \<le> callAmount g"
  shows "0 \<le> callAmount g'"
proof (cases "\<exists>e. r = Err e")
  case True
  then obtain e where "r = Err e" by blast
  with assms(1) applyAction_error[of g playerId action amount g' e] have "g' = g" by simp
  with assms(2) show ?thesis by simp
next
  case False
  from assms(1) False obtain p where p: "at (players g) (currentIndex g) = Some p" "pid p = playerId"
    by (auto simp: applyAction_def split: option.splits if_splits)
  from assms(1) p False obtain g1 where g1: "actionSwitch g (nat (currentIndex g)) action amount = Inr g1"
    by (auto simp: applyAction_def split: sum.splits)
  let ?g2 = "g1\<lparr>actedThisRound := insert playerId (actedThisRound g1),
                lastAction := Some (playerId, action, amount)\<rparr>"
  have adv: "advanceTurn ?g2 = Some (g', r)" using assms(1) p g1 by (simp add: applyAction_def)
  have "0 \<le> callAmount ?g2" using actionSwitch_callAmount[OF g1 assms(2)] by simp
  with advanceTurn_callAmount[OF adv] show ?thesis by auto
qed

text \<open>
  C2 (an entry point that returns an error leaves the whole state as it was; the error
  is one of the eight kinds; a raise with a negative amount is rejected with
  \<open>RaiseTooLow\<close> or \<open>InsufficientChips\<close>). The engine has no test of the sign of an
  amount: a raise is compared with \<open>callAmount\<close> and with the player's chips. \<open>startHand\<close>
  takes \<^verbatim>\<open>settings.bigBlind\<close> as it comes, so after a big blind of -50
  (\<open>negative_blind_table\<close>, which agrees with what \<open>startHand\<close> makes of \<open>seated_table\<close>)
  the raise to -40 is accepted: it returns \<^verbatim>\<open>next_turn\<close>, the raiser's chips grow from
  1475 to 1540 and the pot falls to -90.
\<close>

theorem negative_raise_accepted_counterexample:
  "callAmount negative_blind_table = - 50 \<and>
   map_option snd (applyAction negative_blind_table ''b'' ''raise'' (- 40)) = Some (NextTurn ''a'') \<and>
   map_option (map chips \<circ> players \<circ> fst) (applyAction negative_blind_table ''b'' ''raise'' (- 40))
     = Some [1550, 1540] \<and>
   map_option (pot \<circ> fst) (applyAction negative_blind_table ''b'' ''raise'' (- 40)) = Some (- 90) \<and>
   map_option snd (startHand seated_table \<lparr>smallBlind = None, bigBlind = Some (- 50)\<rparr> id)
     = Some (Success None) \<and>
   map_option (callAmount \<circ> fst) (startHand seated_table \<lparr>smallBlind = None, bigBlind = Some (- 50)\<rparr> id)
     = Some (callAmount negative_blind_table) \<and>
   map_option (map chips \<circ> players \<circ> fst)
       (startHand seated_table \<lparr>smallBlind = None, bigBlind = Some (- 50)\<rparr> id)
     = Some (map chips (players negative_blind_table)) \<and>
   map_option (map bet \<circ> players \<circ> fst)
       (startHand seated_table \<lparr>smallBlind = None, bigBlind = Some (- 50)\<rparr> id)
     = Some (map bet (players negative_blind_table)) \<and>
   map_option (pot \<circ> fst) (startHand seated_table \<lparr>smallBlind = None, bigBlind = Some (- 50)\<rparr> id)
     = Some (pot negative_blind_table) \<and>
   map_option (currentIndex \<circ> fst)
       (startHand seated_table \<lparr>smallBlind = None, bigBlind = Some (- 50)\<rparr> id)
     = Some (currentIndex negative_blind_table)"
  by code_simp

text \<open>
  C2, amended: an entry point that returns an error returns the state it was given
  (\<open>startHand\<close> only \<open>NotEnoughPlayers\<close>, \<open>addPlayer\<close> only \<open>AlreadySeated\<close> or
  \<open>TableFull\<close>, \<open>applyAction\<close> only the other five kinds); in a state whose
  \<open>callAmount\<close> is not negative a raise with a negative amount changes nothing and
  returns \<open>RaiseTooLow\<close> to the player whose turn it is and \<open>NotYourTurn\<close> to anyone
  else. Such are the states of every hand started with a big blind that is not
  negative: \<open>startHand\<close> sets \<open>callAmount\<close> to the big blind in force, and \<open>applyAction\<close>
  never takes \<open>callAmount\<close> below 0 from a state where it is not.
\<close>

theorem errors_leave_state_unchanged:
  "(startHand g st rand = Some (g', Err e) \<longrightarrow> g' = g \<and> e = NotEnoughPlayers) \<and>
   (addPlayer g ident nm stack emj = (g', Err e) \<longrightarrow>
      g' = g \<and> (e = AlreadySeated \<or> e = TableFull)) \<and>
   (applyAction g playerId action amount = Some (g', Err e) \<longrightarrow>
      g' = g \<and> (e = NotYourTurn \<or> e = MustCallOrFold \<or> e = RaiseTooLow
                 \<or> e = InsufficientChips \<or> e = UnknownAction)) \<and>
   (amount < 0 \<and> 0 \<le> callAmount g \<longrightarrow>
      applyAction g playerId ''raise'' amount =
        Some (g, Err (if \<exists>p. at (players g) (currentIndex g) = Some p \<and> pid p = playerId
                      then RaiseTooLow else NotYourTurn))) \<and>
   (startHand g st rand = Some (g', r) \<and> (\<forall>e. r \<noteq> Err e) \<longrightarrow>
      callAmount g' = BIG_BLIND g' \<and>
      BIG_BLIND g' = (case bigBlind st of None \<Rightarrow> BIG_BLIND g
                      | Some x \<Rightarrow> if x \<noteq> 0 then x else BIG_BLIND g)) \<and>
   (applyAction g playerId action amount = Some (g', r) \<and> 0 \<le> callAmount g \<longrightarrow>
      0 \<le> callAmount g')"
  using startHand_error[of g st rand g' e] addPlayer_error[of g ident nm stack emj g' e]
    applyAction_error[of g playerId action amount g' e] negative_raise[of amount g playerId]
    startHand_callAmount[of g st rand g' r] applyAction_callAmount[of g playerId action amount g' r]
  by blast

theorem errors_leave_state_unchanged_witness:
  "startHand (newGame ''R'') \<lparr>smallBlind = None, bigBlind = None\<rparr> (\<lambda>i. 0)
     = Some (newGame ''R'', Err NotEnoughPlayers) \<and>
   addPlayer facing_table ''a'' ''a'' 1500 [] = (facing_table, Err AlreadySeated) \<and>
   applyAction facing_table ''b'' ''call'' 0 = Some (facing_table, Err NotYourTurn) \<and>
   applyAction facing_table ''a'' ''raise'' 5000 = Some (facing_table, Err InsufficientChips) \<and>
   applyAction facing_table ''a'' ''bet'' 10 = Some (facing_table, Err UnknownAction) \<and>
   (- 5 < (0::int) \<and> 0 \<le> callAmount facing_table) \<and>
   applyAction facing_table ''a'' ''raise'' (- 5) = Some (facing_table, Err RaiseTooLow) \<and>
   (\<exists>g'. startHand seated_table \<lparr>smallBlind = None, bigBlind = None\<rparr> (\<lambda>i. 0)
            = Some (g', Success None) \<and> callAmount g' = 50) \<and>
   (\<exists>g'. applyAction blinds_table ''b'' ''call'' 0 = Some (g', NextTurn ''a'') \<and>
         0 \<le> callAmount blinds_table \<and> 0 \<le> callAmount g')"
proof -
  let ?st = "\<lparr>smallBlind = None, bigBlind = None\<rparr>"
  have A: "startHand (newGame ''R'') ?st (\<lambda>i. 0) = Some (newGame ''R'', Err NotEnoughPlayers) \<and>
   addPlayer facing_table ''a'' ''a'' 1500 [] = (facing_table, Err AlreadySeated) \<and>
   applyAction facing_table ''b'' ''call'' 0 = Some (facing_table, Err NotYourTurn) \<and>
   applyAction facing_table ''a'' ''raise'' 5000 = Some (facing_table, Err InsufficientChips) \<and>
   applyAction facing_table ''a'' ''bet'' 10 = Some (facing_table, Err UnknownAction) \<and>
   (- 5 < (0::int) \<and> 0 \<le> callAmount facing_table) \<and>
   applyAction facing_table ''a'' ''raise'' (- 5) = Some (facing_table, Err RaiseTooLow)"
    using errors_leave_state_unchanged [of facing_table ?st "\<lambda>i. 0" facing_table RaiseTooLow
        "''a''" "''a''" 1500 "[]" "''a''" "''raise''" "- 5"]
    by (simp add: startHand_def activePlayers_def newGame_def facing_table_def seat_def
          addPlayer_def applyAction_def actionSwitch_def at_def Let_def)
  have "2 \<le> length (activePlayers seated_table)"
    by (simp add: activePlayers_def seated_table_def newGame_def seat_def)
  from startHand_unfold[OF this, of ?st "\<lambda>i. 0"] obtain g1 where
    s: "startHand seated_table ?st (\<lambda>i. 0) = Some (g1, Success None)" by blast
  from errors_leave_state_unchanged [of seated_table ?st "\<lambda>i. 0" g1 _ _ _ _ _ _ _ _ "Success None"] s
  have "callAmount g1 = 50" by (simp add: seated_table_def newGame_def)
  with s have B: "\<exists>g'. startHand seated_table ?st (\<lambda>i. 0) = Some (g', Success None) \<and> callAmount g' = 50"
    by blast
  from call_blinds_table obtain g2 where
    c: "applyAction blinds_table ''b'' ''call'' 0 = Some (g2, NextTurn ''a'')"
    by (cases "applyAction blinds_table ''b'' ''call'' 0") auto
  have nn: "0 \<le> callAmount blinds_table" by (simp add: blinds_table_def newGame_def)
  from errors_leave_state_unchanged [of blinds_table _ _ g2 _ _ _ _ _ "''b''" "''call''" 0 "NextTurn ''a''"]
    c nn have "0 \<le> callAmount g2" by simp
  with c nn have C: "\<exists>g'. applyAction blinds_table ''b'' ''call'' 0 = Some (g', NextTurn ''a'') \<and>
         0 \<le> callAmount blinds_table \<and> 0 \<le> callAmount g'" by blast
  from A B C show ?thesis by (intro conjI) simp_all
qed

section \<open>What a player is shown\<close>

text \<open>
  C9 (the view holds every field of the table, the hands of the other seats apart, so
  that two states that differ only in another seat's hole cards give the same view outside
  the showdown). The view has no \<open>roomId\<close>, \<open>deck\<close> or \<open>actedThisRound\<close>: two
  tables that differ in all three give the same view. And the view of a seat holds the
  number of its hole cards: taking the two hole cards of seat \<open>b\<close> away changes what
  seat \<open>a\<close> is sent before the showdown.
\<close>

theorem getStateFor_omits_fields_counterexample:
  "getStateFor blinds_table None
     = getStateFor (blinds_table\<lparr>roomId := ''S'', actedThisRound := {''b''},
                      deck := [Card RA Clubs]\<rparr>) None \<and>
   roomId blinds_table = ''R'' \<and> actedThisRound blinds_table = {} \<and> deck blinds_table = [] \<and>
   phase blinds_table = Preflop \<and>
   players blinds_table = [seat ''a'' 1450 50 hole_a, seat ''b'' 1475 25 hole_b] \<and>
   getStateFor (blinds_table\<lparr>players := [seat ''a'' 1450 50 hole_a, seat ''b'' 1475 25 []]\<rparr>)
       (Some ''a'')
     \<noteq> getStateFor blinds_table (Some ''a'')"
  by (simp add: getStateFor_def blinds_table_def newGame_def playerView_def seat_def hole_b_def)

lemma playerView_hidden:
  assumes "ph \<noteq> Showdown" "Some (pid p) \<noteq> viewer" "length h = length (hand p)"
  shows "playerView ph viewer (p\<lparr>hand := h\<rparr>) = playerView ph viewer p"
  using assms by (simp add: playerView_def)

text \<open>
  C9, amended: the view holds \<open>phase\<close>, \<open>pot\<close>, \<open>community\<close>, \<open>dealerIndex\<close>,
  \<open>callAmount\<close>, \<open>minRaise\<close>, \<open>handNumber\<close> and \<open>lastAction\<close> as they are, the first
  20 entries of the log, the id of the seat at \<open>currentIndex\<close> (none for a missing seat or
  an empty id), and for every seat its id, name, chips, bet, \<open>folded\<close>, \<open>allIn\<close>,
  \<open>connected\<close>, \<open>seatIndex\<close>, \<open>buyIns\<close> and emoji (with their defaults), the number of
  its hole cards, and the hole cards themselves exactly when the viewer's id is the seat's
  or the phase is the showdown. Hence outside the showdown two states that differ only in
  hole cards of seats other than the viewer's, card count for card count, give the viewer
  the same view.
\<close>

theorem getStateFor_view:
  "v_phase (getStateFor g viewer) = phase g \<and> v_pot (getStateFor g viewer) = pot g \<and>
   v_community (getStateFor g viewer) = community g \<and>
   v_dealerIndex (getStateFor g viewer) = dealerIndex g \<and>
   v_callAmount (getStateFor g viewer) = callAmount g \<and>
   v_minRaise (getStateFor g viewer) = minRaise g \<and>
   v_handNumber (getStateFor g viewer) = handNumber g \<and>
   v_lastAction (getStateFor g viewer) = lastAction g \<and>
   v_log (getStateFor g viewer) = take 20 (log g) \<and>
   v_currentPlayerId (getStateFor g viewer)
     = (case at (players g) (currentIndex g) of
          None \<Rightarrow> None | Some p \<Rightarrow> if pid p = [] then None else Some (pid p)) \<and>
   length (v_players (getStateFor g viewer)) = length (players g) \<and>
   (\<forall>i < length (players g).
      v_hand (v_players (getStateFor g viewer) ! i)
        = (if Some (pid (players g ! i)) = viewer \<or> phase g = Showdown
           then Some (hand (players g ! i)) else None) \<and>
      v_id (v_players (getStateFor g viewer) ! i) = pid (players g ! i) \<and>
      v_name (v_players (getStateFor g viewer) ! i) = pname (players g ! i) \<and>
      v_chips (v_players (getStateFor g viewer) ! i) = chips (players g ! i) \<and>
      v_bet (v_players (getStateFor g viewer) ! i) = bet (players g ! i) \<and>
      v_folded (v_players (getStateFor g viewer) ! i) = folded (players g ! i) \<and>
      v_allIn (v_players (getStateFor g viewer) ! i) = allIn (players g ! i) \<and>
      v_connected (v_players (getStateFor g viewer) ! i) = connected (players g ! i) \<and>
      v_seatIndex (v_players (getStateFor g viewer) ! i) = seatIndex (players g ! i) \<and>
      v_buyIns (v_players (getStateFor g viewer) ! i) = or_int (buyIns (players g ! i)) 1 \<and>
      v_emoji (v_players (getStateFor g viewer) ! i)
        = or_str (emoji (players g ! i)) DEFAULT_EMOJI \<and>
      v_cardCount (v_players (getStateFor g viewer) ! i) = length (hand (players g ! i))) \<and>
   (phase g \<noteq> Showdown \<longrightarrow>
      (\<forall>ps'. length ps' = length (players g) \<and>
         (\<forall>i < length (players g).
            \<exists>h. ps' ! i = (players g ! i)\<lparr>hand := h\<rparr> \<and> length h = length (hand (players g ! i)) \<and>
                (Some (pid (players g ! i)) = viewer \<longrightarrow> h = hand (players g ! i)))
         \<longrightarrow> getStateFor (g\<lparr>players := ps'\<rparr>) viewer = getStateFor g viewer))"
proof -
  have fields: "v_phase (getStateFor g viewer) = phase g \<and> v_pot (getStateFor g viewer) = pot g \<and>
   v_community (getStateFor g viewer) = community g \<and>
   v_dealerIndex (getStateFor g viewer) = dealerIndex g \<and>
   v_callAmount (getStateFor g viewer) = callAmount g \<and>
   v_minRaise (getStateFor g viewer) = minRaise g \<and>
   v_handNumber (getStateFor g viewer) = handNumber g \<and>
   v_lastAction (getStateFor g viewer) = lastAction g \<and>
   v_log (getStateFor g viewer) = take 20 (log g) \<and>
   v_currentPlayerId (getStateFor g viewer)
     = (case at (players g) (currentIndex g) of
          None \<Rightarrow> None | Some p \<Rightarrow> if pid p = [] then None else Some (pid p)) \<and>
   length (v_players (getStateFor g viewer)) = length (players g)"
    by (simp add: getStateFor_def)
  have seats: "\<forall>i < length (players g).
      v_hand (v_players (getStateFor g viewer) ! i)
        = (if Some (pid (players g ! i)) = viewer \<or> phase g = Showdown
           then Some (hand (players g ! i)) else None) \<and>
      v_id (v_players (getStateFor g viewer) ! i) = pid (players g ! i) \<and>
      v_name (v_players (getStateFor g viewer) ! i) = pname (players g ! i) \<and>
      v_chips (v_players (getStateFor g viewer) ! i) = chips (players g ! i) \<and>
      v_bet (v_players (getStateFor g viewer) ! i) = bet (players g ! i) \<and>
      v_folded (v_players (getStateFor g viewer) ! i) = folded (players g ! i) \<and>
      v_allIn (v_players (getStateFor g viewer) ! i) = allIn (players g ! i) \<and>
      v_connected (v_players (getStateFor g viewer) ! i) = connected (players g ! i) \<and>
      v_seatIndex (v_players (getStateFor g viewer) ! i) = seatIndex (players g ! i) \<and>
      v_buyIns (v_players (getStateFor g viewer) ! i) = or_int (buyIns (players g ! i)) 1 \<and>
      v_emoji (v_players (getStateFor g viewer) ! i)
        = or_str (emoji (players g ! i)) DEFAULT_EMOJI \<and>
      v_cardCount (v_players (getStateFor g viewer) ! i) = length (hand (players g ! i))"
    by (simp add: getStateFor_def playerView_def)
  have ni: "getStateFor (g\<lparr>players := ps'\<rparr>) viewer = getStateFor g viewer"
    if ph: "phase g \<noteq> Showdown" and len: "length ps' = length (players g)"
      and same: "\<forall>i < length (players g).
            \<exists>h. ps' ! i = (players g ! i)\<lparr>hand := h\<rparr> \<and> length h = length (hand (players g ! i)) \<and>
                (Some (pid (players g ! i)) = viewer \<longrightarrow> h = hand (players g ! i))"
    for ps'
  proof -
    have pv: "playerView (phase g) viewer (ps' ! i) = playerView (phase g) viewer (players g ! i)"
      if "i < length (players g)" for i
    proof -
      from same that obtain h where h: "ps' ! i = (players g ! i)\<lparr>hand := h\<rparr>"
        "length h = length (hand (players g ! i))"
        "Some (pid (players g ! i)) = viewer \<longrightarrow> h = hand (players g ! i)" by blast
      show ?thesis
      proof (cases "Some (pid (players g ! i)) = viewer")
        case True
        with h show ?thesis by simp
      next
        case False
        with h ph show ?thesis by (simp add: playerView_hidden)
      qed
    qed
    have m: "map (playerView (phase g) viewer) ps' = map (playerView (phase g) viewer) (players g)"
      by (rule nth_equalityI) (use len pv in auto)
    have pidsame: "pid (ps' ! i) = pid (players g ! i)" if "i < length (players g)" for i
      using same that by auto
    have cur: "(case at ps' (currentIndex g) of
            None \<Rightarrow> None | Some p \<Rightarrow> if pid p = [] then None else Some (pid p))
          = (case at (players g) (currentIndex g) of
            None \<Rightarrow> None | Some p \<Rightarrow> if pid p = [] then None else Some (pid p))"
      using len pidsame by (auto simp: at_def)
    show ?thesis using m cur by (simp add: getStateFor_def)
  qed
  show ?thesis using fields seats ni by blast
qed

text \<open>
  The theorem at the table after the blinds, seen by seat \<open>a\<close>: its own hole cards are
  in the view, those of seat \<open>b\<close> are not, and giving seat \<open>b\<close> two other cards leaves
  the view as it was.
\<close>

theorem getStateFor_view_witness:
  "phase blinds_table \<noteq> Showdown \<and>
   v_hand (v_players (getStateFor blinds_table (Some ''a'')) ! 0) = Some hole_a \<and>
   v_hand (v_players (getStateFor blinds_table (Some ''a'')) ! 1) = None \<and>
   v_cardCount (v_players (getStateFor blinds_table (Some ''a'')) ! 1) = 2 \<and>
   getStateFor (blinds_table\<lparr>players := [seat ''a'' 1450 50 hole_a, seat ''b'' 1475 25 hole_a]\<rparr>)
       (Some ''a'')
     = getStateFor blinds_table (Some ''a'')"
proof -
  note t = getStateFor_view[of blinds_table "Some ''a''"]
  have ph: "phase blinds_table \<noteq> Showdown" by (simp add: blinds_table_def newGame_def)
  have pl: "players blinds_table = [seat ''a'' 1450 50 hole_a, seat ''b'' 1475 25 hole_b]"
    by (simp add: blinds_table_def newGame_def)
  let ?ps' = "[seat ''a'' 1450 50 hole_a, seat ''b'' 1475 25 hole_a]"
  have cond: "length ?ps' = length (players blinds_table) \<and>
         (\<forall>i < length (players blinds_table).
            \<exists>h. ?ps' ! i = (players blinds_table ! i)\<lparr>hand := h\<rparr> \<and>
                length h = length (hand (players blinds_table ! i)) \<and>
                (Some (pid (players blinds_table ! i)) = Some ''a'' \<longrightarrow> h = hand (players blinds_table ! i)))"
    unfolding pl by (auto simp: seat_def hole_a_def hole_b_def less_Suc_eq)
  from t ph cond have ni: "getStateFor (blinds_table\<lparr>players := ?ps'\<rparr>) (Some ''a'')
     = getStateFor blinds_table (Some ''a'')" by blast
  have h0: "v_hand (v_players (getStateFor blinds_table (Some ''a'')) ! 0) = Some hole_a"
    "v_hand (v_players (getStateFor blinds_table (Some ''a'')) ! 1) = None"
    "v_cardCount (v_players (getStateFor blinds_table (Some ''a'')) ! 1) = 2"
    using t by (simp_all add: pl seat_def hole_b_def ph)
  from ph h0 ni show ?thesis by (intro conjI)
qed

end
